theory Spec2Isabelle
  imports Complex_Main
begin

section \<open>Numeric arrays of fixed shape\<close>

text \<open>
  The program works on numpy arrays of shape 3, 3x3 and 4x4 whose entries are Python
  floats.  Entries are modelled as real numbers: every arithmetic operation below is the
  exact one, rounding is not modelled.  A matrix is given by its rows.
\<close>

datatype vec3 = Vec3 real real real

datatype mat3 = Mat3 vec3 vec3 vec3

datatype vec4 = Vec4 real real real real

datatype mat4 = Mat4 vec4 vec4 vec4 vec4

datatype error = AssertionError | ValueError | OverflowError | LinAlgError | IndexError

fun at3 :: "vec3 \<Rightarrow> nat \<Rightarrow> real" where
  "at3 (Vec3 a b c) k = (if k = 0 then a else if k = 1 then b else c)"

fun row3 :: "mat3 \<Rightarrow> nat \<Rightarrow> vec3" where
  "row3 (Mat3 r0 r1 r2) k = (if k = 0 then r0 else if k = 1 then r1 else r2)"

definition el3 :: "mat3 \<Rightarrow> nat \<Rightarrow> nat \<Rightarrow> real" where
  "el3 M i j = at3 (row3 M i) j"

fun at4 :: "vec4 \<Rightarrow> nat \<Rightarrow> real" where
  "at4 (Vec4 a b c d) k = (if k = 0 then a else if k = 1 then b else if k = 2 then c else d)"

fun row4 :: "mat4 \<Rightarrow> nat \<Rightarrow> vec4" where
  "row4 (Mat4 r0 r1 r2 r3) k =
     (if k = 0 then r0 else if k = 1 then r1 else if k = 2 then r2 else r3)"

definition el4 :: "mat4 \<Rightarrow> nat \<Rightarrow> nat \<Rightarrow> real" where
  "el4 M i j = at4 (row4 M i) j"

definition tab3 :: "(nat \<Rightarrow> nat \<Rightarrow> real) \<Rightarrow> mat3" where
  "tab3 f = Mat3 (Vec3 (f 0 0) (f 0 1) (f 0 2))
                 (Vec3 (f 1 0) (f 1 1) (f 1 2))
                 (Vec3 (f 2 0) (f 2 1) (f 2 2))"

definition tab4 :: "(nat \<Rightarrow> nat \<Rightarrow> real) \<Rightarrow> mat4" where
  "tab4 f = Mat4 (Vec4 (f 0 0) (f 0 1) (f 0 2) (f 0 3))
                 (Vec4 (f 1 0) (f 1 1) (f 1 2) (f 1 3))
                 (Vec4 (f 2 0) (f 2 1) (f 2 2) (f 2 3))
                 (Vec4 (f 3 0) (f 3 1) (f 3 2) (f 3 3))"

text \<open>\<^verbatim>\<open>np.eye(4)\<close>\<close>

definition eye4 :: mat4 where
  "eye4 = Mat4 (Vec4 1 0 0 0) (Vec4 0 1 0 0) (Vec4 0 0 1 0) (Vec4 0 0 0 1)"

definition eye3 :: mat3 where
  "eye3 = Mat3 (Vec3 1 0 0) (Vec3 0 1 0) (Vec3 0 0 1)"

text \<open>\<^verbatim>\<open>np.matmul\<close> on two 4x4 arrays, and the 3x3 product.\<close>

definition matmul4 :: "mat4 \<Rightarrow> mat4 \<Rightarrow> mat4" where
  "matmul4 A B = tab4 (\<lambda>i j. el4 A i 0 * el4 B 0 j + el4 A i 1 * el4 B 1 j
                            + el4 A i 2 * el4 B 2 j + el4 A i 3 * el4 B 3 j)"

definition matmul3 :: "mat3 \<Rightarrow> mat3 \<Rightarrow> mat3" where
  "matmul3 A B = tab3 (\<lambda>i j. el3 A i 0 * el3 B 0 j + el3 A i 1 * el3 B 1 j
                            + el3 A i 2 * el3 B 2 j)"

definition transpose3 :: "mat3 \<Rightarrow> mat3" where
  "transpose3 A = tab3 (\<lambda>i j. el3 A j i)"

text \<open>\<^verbatim>\<open>np.linalg.det\<close> on a 3x3 array.\<close>

definition det3 :: "mat3 \<Rightarrow> real" where
  "det3 M = el3 M 0 0 * (el3 M 1 1 * el3 M 2 2 - el3 M 1 2 * el3 M 2 1)
          - el3 M 0 1 * (el3 M 1 0 * el3 M 2 2 - el3 M 1 2 * el3 M 2 0)
          + el3 M 0 2 * (el3 M 1 0 * el3 M 2 1 - el3 M 1 1 * el3 M 2 0)"

text \<open>
  \<^verbatim>\<open>np.linalg.inv\<close> on a 4x4 array: the inverse, and \<^verbatim>\<open>LinAlgError\<close> on a singular
  matrix.  The inverse is the adjugate divided by the determinant; \<open>skip i\<close> renumbers the
  three rows (columns) that remain when row (column) \<open>i\<close> is struck out.
\<close>

definition skip :: "nat \<Rightarrow> nat \<Rightarrow> nat" where
  "skip i k = (if k < i then k else k + 1)"

definition minor4 :: "mat4 \<Rightarrow> nat \<Rightarrow> nat \<Rightarrow> mat3" where
  "minor4 M i j = tab3 (\<lambda>r c. el4 M (skip i r) (skip j c))"

definition cofactor4 :: "mat4 \<Rightarrow> nat \<Rightarrow> nat \<Rightarrow> real" where
  "cofactor4 M i j = (if even (i + j) then 1 else - 1) * det3 (minor4 M i j)"

definition det4 :: "mat4 \<Rightarrow> real" where
  "det4 M = el4 M 0 0 * cofactor4 M 0 0 + el4 M 0 1 * cofactor4 M 0 1
          + el4 M 0 2 * cofactor4 M 0 2 + el4 M 0 3 * cofactor4 M 0 3"

definition inv4 :: "mat4 \<Rightarrow> error + mat4" where
  "inv4 M = (if det4 M = 0 then Inl LinAlgError
             else Inr (tab4 (\<lambda>i j. cofactor4 M j i / det4 M)))"


section \<open>Floating-point values\<close>

text \<open>
  The object points are stored in a \<^verbatim>\<open>float32\<close> array and computed in \<^verbatim>\<open>float64\<close>, so for
  them rounding is modelled.  A floating-point value is a real number (the two zeros are
  one value), an infinity or not a number.  \<open>round_to p emin emax\<close> is the rounding of
  IEEE 754 to the nearest number of \<open>p\<close> significant bits and exponents from \<open>emin\<close> to
  \<open>emax\<close>, ties to the even significand, with subnormal numbers below and overflow to
  infinity above.
\<close>

datatype fval = Finite real | PosInf | NegInf | NaN

definition rne :: "real \<Rightarrow> int" where
  "rne t = (let f = \<lfloor>t\<rfloor>; r = t - of_int f
            in if r < 1 / 2 then f else if 1 / 2 < r then f + 1
               else if even f then f else f + 1)"

definition round_to :: "nat \<Rightarrow> int \<Rightarrow> int \<Rightarrow> real \<Rightarrow> fval" where
  "round_to p emin emax x =
     (if x = 0 then Finite 0
      else
        (let e = max \<lfloor>log 2 \<bar>x\<bar>\<rfloor> emin;
             q = 2 powi (e - int p + 1);
             y = of_int (rne (x / q)) * q
         in if 2 powi (emax + 1) \<le> \<bar>y\<bar> then (if 0 < x then PosInf else NegInf)
            else Finite y))"

definition float64 :: "real \<Rightarrow> fval" where
  "float64 x = round_to 53 (- 1022) 1023 x"

definition float32 :: "real \<Rightarrow> fval" where
  "float32 x = round_to 24 (- 126) 127 x"

text \<open>The product of two \<^verbatim>\<open>float64\<close> values, and the conversion to \<^verbatim>\<open>float32\<close>.\<close>

fun fmul64 :: "fval \<Rightarrow> fval \<Rightarrow> fval" where
  "fmul64 NaN y = NaN"
| "fmul64 x NaN = NaN"
| "fmul64 (Finite a) (Finite b) = float64 (a * b)"
| "fmul64 (Finite a) PosInf = (if a = 0 then NaN else if 0 < a then PosInf else NegInf)"
| "fmul64 (Finite a) NegInf = (if a = 0 then NaN else if 0 < a then NegInf else PosInf)"
| "fmul64 PosInf (Finite b) = (if b = 0 then NaN else if 0 < b then PosInf else NegInf)"
| "fmul64 NegInf (Finite b) = (if b = 0 then NaN else if 0 < b then NegInf else PosInf)"
| "fmul64 PosInf PosInf = PosInf"
| "fmul64 PosInf NegInf = NegInf"
| "fmul64 NegInf PosInf = NegInf"
| "fmul64 NegInf NegInf = PosInf"

definition to_float32 :: "fval \<Rightarrow> fval" where
  "to_float32 v = (case v of Finite x \<Rightarrow> float32 x | _ \<Rightarrow> v)"

section \<open>Cameras and the OpenCV routines\<close>

text \<open>
  A camera is an object of the caller: \<^verbatim>\<open>get_intrinsics()\<close> reports its pinhole
  parameters, and each \<^verbatim>\<open>get_rgb()\<close> delivers the next frame of its stream.  The list
  passed to the calibration holds references, so cameras live in a store indexed by their
  identity, and the same camera may occur twice in a list.  Every call on a camera is
  appended to a log in the order it is made.
\<close>

record intrinsics =
  fx :: real
  fy :: real
  px :: real
  py :: real

record 'img camera =
  intr :: intrinsics
  feed :: "nat \<Rightarrow> 'img"
  pos :: nat

datatype call = GetRgb nat | GetIntrinsics nat

record 'img world =
  store :: "nat \<Rightarrow> 'img camera"
  calls :: "call list"

definition get_rgb :: "nat \<Rightarrow> 'img world \<Rightarrow> 'img \<times> 'img world" where
  "get_rgb c w =
     (let cam = store w c
      in (feed cam (pos cam),
          w\<lparr>store := (store w)(c := cam\<lparr>pos := pos cam + 1\<rparr>),
            calls := calls w @ [GetRgb c]\<rparr>))"

definition get_intrinsics :: "nat \<Rightarrow> 'img world \<Rightarrow> intrinsics \<times> 'img world" where
  "get_intrinsics c w = (intr (store w c), w\<lparr>calls := calls w @ [GetIntrinsics c]\<rparr>)"

text \<open>
  The routines of OpenCV that the pose estimation calls are parameters of the model.
  Detected corners are pixel positions; \<^verbatim>\<open>solvePnP\<close> receives the object points, the
  image points and the camera matrix (the distortion vector is the constant zero vector
  and is left out), and returns its success flag, the rotation vector and the
  translation vector.
\<close>

type_synonym point32 = "fval \<times> fval \<times> fval"

record ('img, 'gray) cv2 =
  cvtColor :: "'img \<Rightarrow> 'gray"
  findChessboardCorners :: "'gray \<Rightarrow> int \<times> int \<Rightarrow> bool \<times> (real \<times> real) list"
  cornerSubPix :: "'gray \<Rightarrow> (real \<times> real) list \<Rightarrow> (real \<times> real) list"
  solvePnP :: "point32 list \<Rightarrow> (real \<times> real) list \<Rightarrow> mat3 \<Rightarrow> bool \<times> vec3 \<times> vec3"
  Rodrigues :: "vec3 \<Rightarrow> mat3"

section \<open>The pose of the chessboard in one camera\<close>

text \<open>
  The camera matrix \<^verbatim>\<open>mtx\<close> built from the intrinsics.
\<close>

definition camera_matrix :: "intrinsics \<Rightarrow> mat3" where
  "camera_matrix i = Mat3 (Vec3 (fx i) 0 (px i)) (Vec3 0 (fy i) (py i)) (Vec3 0 0 1)"

text \<open>
  The object points \<^verbatim>\<open>objp\<close>.  \<^verbatim>\<open>np.mgrid[0:a, 0:b].T.reshape(-1, 2)\<close> is an \<^verbatim>\<open>int64\<close> array
  that lists the pairs \<open>(i, j)\<close> with \<open>j\<close> as the outer and \<open>i\<close> as the inner index.
  \<^verbatim>\<open>np.zeros\<close> refuses a negative number of rows and \<^verbatim>\<open>np.mgrid\<close> a negative extent: both
  raise \<^verbatim>\<open>ValueError\<close>.
\<close>

definition mgrid_pairs :: "int \<Rightarrow> int \<Rightarrow> (int \<times> int) list" where
  "mgrid_pairs a b = concat (map (\<lambda>j. map (\<lambda>i. (int i, int j)) [0..<nat a]) [0..<nat b])"

text \<open>
  The square size is a Python \<^verbatim>\<open>int\<close> or \<^verbatim>\<open>float\<close>.  Times an \<^verbatim>\<open>int\<close> the array stays
  \<^verbatim>\<open>int64\<close>: the product wraps around, and an \<^verbatim>\<open>int\<close> outside \<^verbatim>\<open>int64\<close> raises
  \<^verbatim>\<open>OverflowError\<close> (NumPy 2); the array is converted to \<^verbatim>\<open>float64\<close> when it is multiplied
  by \<^verbatim>\<open>mm2m\<close>, which is the \<^verbatim>\<open>float64\<close> nearest to \<^verbatim>\<open>1e-3\<close>.  Times a \<^verbatim>\<open>float\<close> the array is
  converted to \<^verbatim>\<open>float64\<close> first.  The assignment into \<^verbatim>\<open>objp\<close> rounds to \<^verbatim>\<open>float32\<close>; the
  third coordinate stays the zero of \<^verbatim>\<open>np.zeros\<close>.  The limit that memory puts on the size
  of the arrays is not modelled.
\<close>

datatype number = PyInt int | PyFloat fval

definition wrap64 :: "int \<Rightarrow> int" where
  "wrap64 n = (n + 2 ^ 63) mod 2 ^ 64 - 2 ^ 63"

definition mm2m :: fval where
  "mm2m = float64 (1 / 1000)"

definition times_square_size :: "int \<Rightarrow> number \<Rightarrow> fval" where
  "times_square_size i chess_square_size =
     (case chess_square_size of
        PyInt n \<Rightarrow> float64 (of_int (wrap64 (i * n)))
      | PyFloat x \<Rightarrow> fmul64 (float64 (of_int i)) x)"

definition grid_coordinate :: "int \<Rightarrow> number \<Rightarrow> fval" where
  "grid_coordinate i chess_square_size =
     to_float32 (fmul64 (times_square_size i chess_square_size) mm2m)"

definition object_points :: "int \<times> int \<Rightarrow> number \<Rightarrow> error + point32 list" where
  "object_points chessboard_size chess_square_size =
     (let a = fst chessboard_size; b = snd chessboard_size in
      if a * b < 0 then Inl ValueError
      else if a < 0 \<or> b < 0 then Inl ValueError
      else if (case chess_square_size of
                 PyInt n \<Rightarrow> n < - (2 ^ 63) \<or> 2 ^ 63 \<le> n
               | PyFloat x \<Rightarrow> False) then Inl OverflowError
      else Inr (map (\<lambda>(i, j). (grid_coordinate i chess_square_size,
                                 grid_coordinate j chess_square_size, Finite 0))
                    (mgrid_pairs a b)))"

text \<open>
  The loop \<^verbatim>\<open>while not pose_found\<close>: it takes a frame, looks for the chessboard and, when
  it is found, solves for the pose; it ends only when \<^verbatim>\<open>solvePnP\<close> reports success, so it
  need not return.  The display of the frame does not touch the values returned and is
  not modelled.
\<close>

partial_function (option) find_pose ::
  "('img, 'gray) cv2 \<Rightarrow> nat \<Rightarrow> int \<times> int \<Rightarrow> point32 list \<Rightarrow> mat3 \<Rightarrow> 'img world
     \<Rightarrow> ((mat3 \<times> vec3) \<times> 'img world) option" where
  "find_pose cv c chessboard_size objp mtx w =
     (let (img, w1) = get_rgb c w;
          gray = cvtColor cv img;
          (chessboard_found, corners) = findChessboardCorners cv gray chessboard_size
      in if chessboard_found then
           (let corners2 = cornerSubPix cv gray corners;
                (pose_found, rot_vec, trasl_vec) = solvePnP cv objp corners2 mtx;
                rot_matrix = Rodrigues cv rot_vec
            in if pose_found then Some ((rot_matrix, trasl_vec), w1)
               else find_pose cv c chessboard_size objp mtx w1)
         else find_pose cv c chessboard_size objp mtx w1)"

definition chessboard_pose_estimation ::
  "('img, 'gray) cv2 \<Rightarrow> nat \<Rightarrow> int \<times> int \<Rightarrow> number \<Rightarrow> bool \<Rightarrow> 'img world
     \<Rightarrow> ((error + mat3 \<times> vec3) \<times> 'img world) option" where
  "chessboard_pose_estimation cv c chessboard_size chess_square_size display_frame w =
     (let (i, w1) = get_intrinsics c w;
          mtx = camera_matrix i
      in case object_points chessboard_size chess_square_size of
           Inl e \<Rightarrow> Some (Inl e, w1)
         | Inr objp \<Rightarrow>
             (case find_pose cv c chessboard_size objp mtx w1 of
                None \<Rightarrow> None
              | Some (pose, w2) \<Rightarrow> Some (Inr pose, w2)))"

section \<open>The calibration of a list of cameras\<close>

text \<open>The warm-up: ten frames of every camera are taken and dropped.\<close>

fun discard_frames :: "nat \<Rightarrow> nat \<Rightarrow> 'img world \<Rightarrow> 'img world" where
  "discard_frames 0 c w = w"
| "discard_frames (Suc n) c w = discard_frames n c (snd (get_rgb c w))"

fun warm_up :: "nat list \<Rightarrow> 'img world \<Rightarrow> 'img world" where
  "warm_up [] w = w"
| "warm_up (c # cs) w = warm_up cs (discard_frames 10 c w)"

text \<open>The loop \<^verbatim>\<open>for k in range(loops)\<close> that collects the samples of one camera.\<close>

fun sample_poses ::
  "('img, 'gray) cv2 \<Rightarrow> nat \<Rightarrow> int \<times> int \<Rightarrow> number \<Rightarrow> bool \<Rightarrow> nat \<Rightarrow> 'img world
     \<Rightarrow> ((error + (mat3 \<times> vec3) list) \<times> 'img world) option" where
  "sample_poses cv c chess_size sq disp 0 w = Some (Inr [], w)"
| "sample_poses cv c chess_size sq disp (Suc k) w =
     (case chessboard_pose_estimation cv c chess_size sq disp w of
        None \<Rightarrow> None
      | Some (Inl e, w1) \<Rightarrow> Some (Inl e, w1)
      | Some (Inr pose, w1) \<Rightarrow>
          (case sample_poses cv c chess_size sq disp k w1 of
             None \<Rightarrow> None
           | Some (Inl e, w2) \<Rightarrow> Some (Inl e, w2)
           | Some (Inr poses, w2) \<Rightarrow> Some (Inr (pose # poses), w2)))"

text \<open>\<^verbatim>\<open>np.mean(..., 0)\<close> over a stack of 3x3 arrays and over a stack of 3x1 arrays.\<close>

definition mean_mat3 :: "mat3 list \<Rightarrow> mat3" where
  "mean_mat3 Rs = tab3 (\<lambda>i j. sum_list (map (\<lambda>R. el3 R i j) Rs) / real (length Rs))"

definition mean_vec3 :: "vec3 list \<Rightarrow> vec3" where
  "mean_vec3 ts = Vec3 (sum_list (map (\<lambda>t. at3 t 0) ts) / real (length ts))
                       (sum_list (map (\<lambda>t. at3 t 1) ts) / real (length ts))
                       (sum_list (map (\<lambda>t. at3 t 2) ts) / real (length ts))"

text \<open>
  The pose of one camera.  With \<^verbatim>\<open>loops == 1\<close> it is the estimate itself, otherwise the
  mean of \<^verbatim>\<open>loops\<close> estimates.  When \<^verbatim>\<open>range(loops)\<close> is empty the mean of the empty stack
  is a scalar, which \<^verbatim>\<open>np.linalg.det\<close> rejects with \<^verbatim>\<open>LinAlgError\<close>.
\<close>

definition camera_pose ::
  "('img, 'gray) cv2 \<Rightarrow> nat \<Rightarrow> int \<times> int \<Rightarrow> number \<Rightarrow> int \<Rightarrow> bool \<Rightarrow> 'img world
     \<Rightarrow> ((error + mat3 \<times> vec3) \<times> 'img world) option" where
  "camera_pose cv c chess_size sq loops disp w =
     (if loops = 1 then chessboard_pose_estimation cv c chess_size sq disp w
      else
        (case sample_poses cv c chess_size sq disp (nat loops) w of
           None \<Rightarrow> None
         | Some (Inl e, w1) \<Rightarrow> Some (Inl e, w1)
         | Some (Inr poses, w1) \<Rightarrow>
             if poses = [] then Some (Inl LinAlgError, w1)
             else Some (Inr (mean_mat3 (map fst poses), mean_vec3 (map snd poses)), w1)))"

text \<open>
  \<^verbatim>\<open>hom_mat = np.eye(4); hom_mat[:3, :3] = rot_mat; hom_mat[:3, 3:] = trasl_vec\<close>
\<close>

definition hom_mat :: "mat3 \<Rightarrow> vec3 \<Rightarrow> mat4" where
  "hom_mat rot_mat trasl_vec =
     tab4 (\<lambda>i j. if i < 3 \<and> j < 3 then el3 rot_mat i j
                 else if i < 3 then at3 trasl_vec i
                 else el4 eye4 i j)"

fun homogeneous_matrices ::
  "('img, 'gray) cv2 \<Rightarrow> nat list \<Rightarrow> int \<times> int \<Rightarrow> number \<Rightarrow> int \<Rightarrow> bool \<Rightarrow> 'img world
     \<Rightarrow> ((error + mat4 list) \<times> 'img world) option" where
  "homogeneous_matrices cv [] chess_size sq loops disp w = Some (Inr [], w)"
| "homogeneous_matrices cv (c # cs) chess_size sq loops disp w =
     (case camera_pose cv c chess_size sq loops disp w of
        None \<Rightarrow> None
      | Some (Inl e, w1) \<Rightarrow> Some (Inl e, w1)
      | Some (Inr (rot_mat, trasl_vec), w1) \<Rightarrow>
          (case homogeneous_matrices cv cs chess_size sq loops disp w1 of
             None \<Rightarrow> None
           | Some (Inl e, w2) \<Rightarrow> Some (Inl e, w2)
           | Some (Inr Hs, w2) \<Rightarrow> Some (Inr (hom_mat rot_mat trasl_vec # Hs), w2)))"

text \<open>The loop that fills \<^verbatim>\<open>cam1_H_camX\<close>.\<close>

fun relative_transforms :: "mat4 \<Rightarrow> mat4 list \<Rightarrow> error + mat4 list" where
  "relative_transforms H_ref [] = Inr []"
| "relative_transforms H_ref (H # Hs) =
     (case inv4 H of
        Inl e \<Rightarrow> Inl e
      | Inr H_inv \<Rightarrow>
          (case relative_transforms H_ref Hs of
             Inl e \<Rightarrow> Inl e
           | Inr out \<Rightarrow> Inr (matmul4 H_ref H_inv # out)))"

definition extrinsic_calibration ::
  "('img, 'gray) cv2 \<Rightarrow> nat list \<Rightarrow> int \<times> int \<Rightarrow> number \<Rightarrow> int \<Rightarrow> bool \<Rightarrow> 'img world
     \<Rightarrow> ((error + mat4 list) \<times> 'img world) option" where
  "extrinsic_calibration cv cameras chess_size chess_square_size loops display_frame w =
     (if \<not> length cameras \<ge> 2 then Some (Inl AssertionError, w)
      else
        (case homogeneous_matrices cv cameras chess_size chess_square_size loops display_frame
                (warm_up cameras w) of
           None \<Rightarrow> None
         | Some (Inl e, w1) \<Rightarrow> Some (Inl e, w1)
         | Some (Inr Hs, w1) \<Rightarrow>
             (case Hs of
                [] \<Rightarrow> Some (Inl IndexError, w1)
              | H_ref # _ \<Rightarrow>
                  (case relative_transforms H_ref Hs of
                     Inl e \<Rightarrow> Some (Inl e, w1)
                   | Inr cam1_H_camX \<Rightarrow> Some (Inr (drop 1 cam1_H_camX), w1)))))"

section \<open>Notions used in the statements\<close>

text \<open>
  A matrix is close to a rotation when its determinant is within \<open>eps\<close> of one and every
  entry of its transpose times itself is within \<open>eps\<close> of the identity.
\<close>

definition entries3 :: "mat3 \<Rightarrow> real list" where
  "entries3 M = [el3 M 0 0, el3 M 0 1, el3 M 0 2, el3 M 1 0, el3 M 1 1, el3 M 1 2,
                 el3 M 2 0, el3 M 2 1, el3 M 2 2]"

definition max_deviation3 :: "mat3 \<Rightarrow> mat3 \<Rightarrow> real" where
  "max_deviation3 A B = foldr max (map2 (\<lambda>a b. \<bar>a - b\<bar>) (entries3 A) (entries3 B)) 0"

definition near_rotation :: "real \<Rightarrow> mat3 \<Rightarrow> bool" where
  "near_rotation eps R \<longleftrightarrow>
     \<bar>det3 R - 1\<bar> \<le> eps \<and> max_deviation3 (matmul3 (transpose3 R) R) eye3 \<le> eps"

text \<open>
  \<open>close eps y x\<close>: the value \<open>y\<close> is \<open>x\<close> up to the relative error \<open>eps\<close>.
\<close>

definition close :: "real \<Rightarrow> real \<Rightarrow> real \<Rightarrow> bool" where
  "close eps y x \<longleftrightarrow> \<bar>y - x\<bar> \<le> eps * \<bar>x\<bar>"



definition same_devices :: "'img world \<Rightarrow> 'img world \<Rightarrow> bool" where
  "same_devices w w' \<longleftrightarrow>
     (\<forall>c. feed (store w' c) = feed (store w c) \<and> intr (store w' c) = intr (store w c))"

section \<open>Scenes for concrete runs\<close>

text \<open>
  A stand-in for OpenCV that finds the board in every frame, reads the first corner's
  abscissa as the board's offset and reports no rotation; cameras whose every frame shows
  the camera's own number; and the pure translation as a 4x4 matrix.
\<close>

definition cvW :: "(nat, nat) cv2" where
  "cvW = \<lparr>cvtColor = (\<lambda>img. img),
          findChessboardCorners = (\<lambda>gray sz. (True, [(real gray, 0)])),
          cornerSubPix = (\<lambda>gray cs. cs),
          solvePnP = (\<lambda>objp cs K.
             (True, Vec3 0 0 0, Vec3 (case cs of [] \<Rightarrow> 0 | p # _ \<Rightarrow> fst p) 0 1)),
          Rodrigues = (\<lambda>v. eye3)\<rparr>"

definition camW :: "nat \<Rightarrow> nat camera" where
  "camW n = \<lparr>intr = \<lparr>fx = 1, fy = 1, px = 0, py = 0\<rparr>, feed = (\<lambda>k. n), pos = 0\<rparr>"

definition wW :: "nat world" where
  "wW = \<lparr>store = camW, calls = []\<rparr>"

definition transl :: "real \<Rightarrow> real \<Rightarrow> real \<Rightarrow> mat4" where
  "transl x y z = Mat4 (Vec4 1 0 0 x) (Vec4 0 1 0 y) (Vec4 0 0 1 z) (Vec4 0 0 0 1)"

text \<open>
  A second scene: the frames of a camera alternate between the board as it is and the board
  turned by half a turn about its normal, and the solver reports the turn as a rotation
  vector along z, which \<open>Rodrigues\<close> maps to the rotation about z.
\<close>

definition rot_z :: "real \<Rightarrow> mat3" where
  "rot_z a = Mat3 (Vec3 (cos a) (- sin a) 0) (Vec3 (sin a) (cos a) 0) (Vec3 0 0 1)"

definition cvR :: "(nat, nat) cv2" where
  "cvR = \<lparr>cvtColor = (\<lambda>img. img),
          findChessboardCorners = (\<lambda>gray sz. (True, [(real gray, 0)])),
          cornerSubPix = (\<lambda>gray cs. cs),
          solvePnP = (\<lambda>objp cs K.
             (True, Vec3 0 0 (case cs of [] \<Rightarrow> 0 | p # _ \<Rightarrow> fst p * pi), Vec3 0 0 1)),
          Rodrigues = (\<lambda>v. rot_z (at3 v 2))\<rparr>"

definition camR :: "nat camera" where
  "camR = \<lparr>intr = \<lparr>fx = 1, fy = 1, px = 0, py = 0\<rparr>, feed = (\<lambda>k. k mod 2), pos = 0\<rparr>"

definition wR :: "nat world" where
  "wR = \<lparr>store = (\<lambda>c. camR), calls = []\<rparr>"

definition half_turn_mean :: mat3 where
  "half_turn_mean = Mat3 (Vec3 0 0 0) (Vec3 0 0 0) (Vec3 0 0 1)"

section \<open>Matrix algebra\<close>

lemma mat4_shape:
  obtains a00 a01 a02 a03 a10 a11 a12 a13 a20 a21 a22 a23 a30 a31 a32 a33 where
    "M = Mat4 (Vec4 a00 a01 a02 a03) (Vec4 a10 a11 a12 a13)
              (Vec4 a20 a21 a22 a23) (Vec4 a30 a31 a32 a33)"
  by (metis mat4.exhaust vec4.exhaust)

lemma mat3_shape:
  obtains a00 a01 a02 a10 a11 a12 a20 a21 a22 where
    "M = Mat3 (Vec3 a00 a01 a02) (Vec3 a10 a11 a12) (Vec3 a20 a21 a22)"
  by (metis mat3.exhaust vec3.exhaust)

lemma index4_cases: "i < 4 \<Longrightarrow> i = 0 \<or> i = 1 \<or> i = 2 \<or> i = (3::nat)"
  by arith

lemmas unfold4 = det4_def cofactor4_def minor4_def det3_def skip_def tab3_def el4_def el3_def

lemma laplace_row:
  assumes "i < 4" "j < 4"
  shows "el4 M i 0 * cofactor4 M j 0 + el4 M i 1 * cofactor4 M j 1
       + el4 M i 2 * cofactor4 M j 2 + el4 M i 3 * cofactor4 M j 3
       = (if i = j then det4 M else 0)"
proof -
  obtain a00 a01 a02 a03 a10 a11 a12 a13 a20 a21 a22 a23 a30 a31 a32 a33 where
    M: "M = Mat4 (Vec4 a00 a01 a02 a03) (Vec4 a10 a11 a12 a13)
              (Vec4 a20 a21 a22 a23) (Vec4 a30 a31 a32 a33)"
    by (rule mat4_shape)
  from assms have "i = 0 \<or> i = 1 \<or> i = 2 \<or> i = 3" "j = 0 \<or> j = 1 \<or> j = 2 \<or> j = 3"
    by (auto dest: index4_cases)
  then show ?thesis
    unfolding M
    by (elim disjE; simp add: unfold4; simp add: algebra_simps)
qed

lemma tab4_eqI:
  assumes "\<And>i j. i < 4 \<Longrightarrow> j < 4 \<Longrightarrow> f i j = g i j"
  shows "tab4 f = tab4 g"
  by (simp add: tab4_def assms)

lemma el4_tab4: "i < 4 \<Longrightarrow> j < 4 \<Longrightarrow> el4 (tab4 f) i j = f i j"
  by (drule index4_cases, drule index4_cases) (elim disjE; simp add: tab4_def el4_def)

lemma matmul4_inv4:
  assumes "inv4 M = Inr N"
  shows "matmul4 M N = eye4"
proof -
  from assms have d: "det4 M \<noteq> 0" and N: "N = tab4 (\<lambda>i j. cofactor4 M j i / det4 M)"
    by (auto simp: inv4_def split: if_splits)
  have e: "el4 M i 0 * (cofactor4 M j 0 / det4 M) + el4 M i 1 * (cofactor4 M j 1 / det4 M)
       + el4 M i 2 * (cofactor4 M j 2 / det4 M) + el4 M i 3 * (cofactor4 M j 3 / det4 M)
       = (if i = j then 1 else 0)" if "i < 4" "j < 4" for i j
  proof -
    have "el4 M i 0 * (cofactor4 M j 0 / det4 M) + el4 M i 1 * (cofactor4 M j 1 / det4 M)
       + el4 M i 2 * (cofactor4 M j 2 / det4 M) + el4 M i 3 * (cofactor4 M j 3 / det4 M)
       = (el4 M i 0 * cofactor4 M j 0 + el4 M i 1 * cofactor4 M j 1
       + el4 M i 2 * cofactor4 M j 2 + el4 M i 3 * cofactor4 M j 3) / det4 M"
      by (simp add: add_divide_distrib)
    also have "\<dots> = (if i = j then 1 else 0)"
      unfolding laplace_row [OF that] using d by simp
    finally show ?thesis .
  qed
  have "matmul4 M N = tab4 (\<lambda>i j. if i = j then 1 else 0)"
    unfolding matmul4_def
  proof (rule tab4_eqI)
    fix i j :: nat
    assume ij: "i < 4" "j < 4"
    have k: "el4 N k j = cofactor4 M j k / det4 M" if "k < 4" for k
      unfolding N using that ij by (simp add: el4_tab4)
    show "el4 M i 0 * el4 N 0 j + el4 M i 1 * el4 N 1 j + el4 M i 2 * el4 N 2 j
            + el4 M i 3 * el4 N 3 j = (if i = j then 1 else 0)"
      using e [OF ij] by (simp add: k)
  qed
  then show ?thesis
    by (simp add: tab4_def eye4_def)
qed

lemma row4_hom_mat: "row4 (hom_mat R t) 3 = Vec4 0 0 0 1"
  by (simp add: hom_mat_def tab4_def eye4_def el4_def)

lemma det4_hom_mat: "det4 (hom_mat R t) = det3 R"
proof -
  obtain a00 a01 a02 a10 a11 a12 a20 a21 a22 where
    R: "R = Mat3 (Vec3 a00 a01 a02) (Vec3 a10 a11 a12) (Vec3 a20 a21 a22)"
    by (rule mat3_shape)
  obtain x y z where t: "t = Vec3 x y z"
    by (cases t)
  show ?thesis
    unfolding R t
    by (simp add: hom_mat_def tab4_def eye4_def unfold4) (simp add: algebra_simps)
qed

lemma affine_inv4:
  assumes "row4 M 3 = Vec4 0 0 0 1" and "inv4 M = Inr N"
  shows "row4 N 3 = Vec4 0 0 0 1"
proof -
  obtain a00 a01 a02 a03 a10 a11 a12 a13 a20 a21 a22 a23 a30 a31 a32 a33 where
    M: "M = Mat4 (Vec4 a00 a01 a02 a03) (Vec4 a10 a11 a12 a13)
              (Vec4 a20 a21 a22 a23) (Vec4 a30 a31 a32 a33)"
    by (rule mat4_shape)
  from assms(1) have z: "a30 = 0" "a31 = 0" "a32 = 0" "a33 = 1"
    by (simp_all add: M)
  from assms(2) have d: "det4 M \<noteq> 0" and N: "N = tab4 (\<lambda>i j. cofactor4 M j i / det4 M)"
    by (auto simp: inv4_def split: if_splits)
  have c0: "cofactor4 M 0 3 = 0" and c1: "cofactor4 M (Suc 0) 3 = 0" and c2: "cofactor4 M 2 3 = 0"
    and c3: "cofactor4 M 3 3 = det4 M"
    unfolding M z by (simp_all add: unfold4) (simp add: algebra_simps)
  show ?thesis
    unfolding N using d by (simp add: tab4_def c0 c1 c2 c3)
qed

lemma affine_matmul4:
  assumes "row4 A 3 = Vec4 0 0 0 1"
  shows "row4 (matmul4 A B) 3 = row4 B 3"
proof -
  obtain b0 b1 b2 b3 where B: "B = Mat4 b0 b1 b2 b3" by (cases B)
  obtain x y z u where b3: "b3 = Vec4 x y z u" by (cases b3)
  obtain a0 a1 a2 a3 where A: "A = Mat4 a0 a1 a2 a3" by (cases A)
  from assms have a3: "a3 = Vec4 0 0 0 1" by (simp add: A)
  show ?thesis
    by (simp add: matmul4_def tab4_def el4_def A B a3 b3)
qed

section \<open>Rounding\<close>

lemma rne_error: "\<bar>of_int (rne t) - t\<bar> \<le> 1 / 2"
proof -
  have "of_int \<lfloor>t\<rfloor> \<le> t" "t < of_int \<lfloor>t\<rfloor> + 1"
    by linarith+
  then show ?thesis
    by (auto simp: rne_def Let_def)
qed

lemma powr2_powi: "2 powr real_of_int k = (2::real) powi k"
  by (rule powr_real_of_int') simp_all

lemma floor_log2_iff:
  assumes "0 < \<bar>x\<bar>"
  shows "\<lfloor>log 2 \<bar>x\<bar>\<rfloor> = k \<longleftrightarrow> 2 powi k \<le> \<bar>x\<bar> \<and> \<bar>x\<bar> < 2 powi (k + 1)"
  using floor_log_eq_powr_iff [OF assms, of 2 k] powr2_powi [of k] powr2_powi [of "k + 1"]
  by simp

lemma floor_log2_bounds:
  assumes "x \<noteq> 0"
  shows "2 powi \<lfloor>log 2 \<bar>x\<bar>\<rfloor> \<le> \<bar>x\<bar>" and "\<bar>x\<bar> < 2 powi (\<lfloor>log 2 \<bar>x\<bar>\<rfloor> + 1)"
proof -
  from assms have p: "0 < \<bar>x\<bar>" by simp
  from floor_log2_iff [OF p, of "\<lfloor>log 2 \<bar>x\<bar>\<rfloor>"]
  show "2 powi \<lfloor>log 2 \<bar>x\<bar>\<rfloor> \<le> \<bar>x\<bar>" and "\<bar>x\<bar> < 2 powi (\<lfloor>log 2 \<bar>x\<bar>\<rfloor> + 1)"
    by simp_all
qed

lemma floor_log2_eq:
  assumes "2 powi k \<le> \<bar>x\<bar>" and "\<bar>x\<bar> < 2 powi (k + 1)"
  shows "\<lfloor>log 2 \<bar>x\<bar>\<rfloor> = k"
proof -
  have "0 < (2::real) powi k" by simp
  with assms(1) have p: "0 < \<bar>x\<bar>" by linarith
  show ?thesis
    using assms by (simp add: floor_log2_iff [OF p])
qed

lemma round_to_rel:
  assumes "2 powi emin \<le> \<bar>x\<bar>" and "\<bar>x\<bar> \<le> 2 powi emax" and "0 < p"
  shows "\<exists>y. round_to p emin emax x = Finite y \<and> \<bar>y - x\<bar> \<le> \<bar>x\<bar> / 2 ^ p"
proof -
  have "0 < (2::real) powi emin" by simp
  with assms(1) have "0 < \<bar>x\<bar>" by linarith
  then have nz: "x \<noteq> 0" by simp
  define e0 where "e0 = \<lfloor>log 2 \<bar>x\<bar>\<rfloor>"
  note b = floor_log2_bounds [OF nz, folded e0_def]
  have "emin < e0 + 1"
  proof (rule ccontr)
    assume "\<not> emin < e0 + 1"
    then have "(2::real) powi (e0 + 1) \<le> 2 powi emin"
      by (intro power_int_increasing) simp_all
    with b(2) assms(1) show False by linarith
  qed
  then have e: "max e0 emin = e0" by simp
  define q :: real where "q = 2 powi (e0 - int p + 1)"
  define y where "y = of_int (rne (x / q)) * q"
  have q0: "0 < q" by (simp add: q_def)
  have "y - x = q * (of_int (rne (x / q)) - x / q)"
    using q0 by (simp add: y_def algebra_simps)
  then have "\<bar>y - x\<bar> = q * \<bar>of_int (rne (x / q)) - x / q\<bar>"
    using q0 by (simp add: abs_mult)
  also have "\<dots> \<le> q * (1 / 2)"
    using q0 rne_error [of "x / q"] by (intro mult_left_mono) simp_all
  also have "q * (1 / 2) = 2 powi e0 / 2 ^ p"
    by (simp add: q_def power_int_diff power_int_add)
  also have "\<dots> \<le> \<bar>x\<bar> / 2 ^ p"
    using b(1) by (simp add: divide_right_mono)
  finally have err: "\<bar>y - x\<bar> \<le> \<bar>x\<bar> / 2 ^ p" .
  from assms(3) have "(2::real) ^ 1 \<le> 2 ^ p"
    by (intro power_increasing) simp_all
  then have "\<bar>x\<bar> / 2 ^ p \<le> \<bar>x\<bar> / 2"
    by (intro divide_left_mono) simp_all
  with err have "\<bar>y\<bar> \<le> \<bar>x\<bar> + \<bar>x\<bar> / 2" by linarith
  also have "\<dots> < 2 * \<bar>x\<bar>" using nz by simp
  also have "\<dots> \<le> 2 * 2 powi emax" using assms(2) by simp
  also have "\<dots> = 2 powi (emax + 1)" by (simp add: power_int_add)
  finally have "\<not> 2 powi (emax + 1) \<le> \<bar>y\<bar>" by simp
  then have "round_to p emin emax x = Finite y"
    using nz by (simp add: round_to_def Let_def e e0_def [symmetric] q_def [symmetric]
        y_def [symmetric])
  with err show ?thesis by blast
qed

lemma round_to_at:
  assumes "2 powi k \<le> \<bar>x\<bar>" and "\<bar>x\<bar> < 2 powi (k + 1)"
  shows "round_to p emin emax x =
     (let q = 2 powi (max k emin - int p + 1); y = of_int (rne (x / q)) * q
      in if 2 powi (emax + 1) \<le> \<bar>y\<bar> then (if 0 < x then PosInf else NegInf) else Finite y)"
proof -
  have "0 < (2::real) powi k" by simp
  with assms(1) have "0 < \<bar>x\<bar>" by linarith
  then have nz: "x \<noteq> 0" by simp
  show ?thesis
    using nz by (simp add: round_to_def floor_log2_eq [OF assms] Let_def)
qed

lemma float64_mm: "float64 (1 / 1000) = Finite (1152921504606847 / 2 ^ 60)"
  unfolding float64_def
  by (subst round_to_at [where k = "- 10"]) (simp_all add: rne_def Let_def)

lemma float64_25: "float64 25 = Finite 25"
  unfolding float64_def
  by (subst round_to_at [where k = 4]) (simp_all add: rne_def Let_def)

lemma float64_25mm: "float64 (25 * (1152921504606847 / 2 ^ 60)) = Finite (7205759403792794 / 2 ^ 58)"
  unfolding float64_def
  by (subst round_to_at [where k = "- 6"]) (simp_all add: rne_def Let_def)

lemma float32_25mm: "float32 (7205759403792794 / 2 ^ 58) = Finite (13421773 / 536870912)"
  unfolding float32_def
  by (subst round_to_at [where k = "- 6"]) (simp_all add: rne_def Let_def)

lemma close_mult:
  assumes "close a y x" and "close b z (y * k)" and "0 \<le> a" and "0 \<le> b"
  shows "close (a + b + a * b) z (x * k)"
proof -
  from assms(1) have y: "\<bar>y\<bar> \<le> (1 + a) * \<bar>x\<bar>"
    unfolding close_def by (simp add: algebra_simps)
  have "z - x * k = (z - y * k) + (y - x) * k"
    by (simp add: algebra_simps)
  then have "\<bar>z - x * k\<bar> \<le> \<bar>z - y * k\<bar> + \<bar>(y - x) * k\<bar>"
    by (simp only: abs_triangle_ineq)
  then have "\<bar>z - x * k\<bar> \<le> \<bar>z - y * k\<bar> + \<bar>y - x\<bar> * \<bar>k\<bar>"
    by (simp add: abs_mult)
  also have "\<dots> \<le> b * (\<bar>y\<bar> * \<bar>k\<bar>) + (a * \<bar>x\<bar>) * \<bar>k\<bar>"
    using assms(1,2) unfolding close_def
    by (intro add_mono mult_right_mono) (simp_all add: abs_mult)
  also have "\<dots> \<le> b * (((1 + a) * \<bar>x\<bar>) * \<bar>k\<bar>) + (a * \<bar>x\<bar>) * \<bar>k\<bar>"
    using y assms(4) by (intro add_mono mult_left_mono mult_right_mono) simp_all
  also have "\<dots> = (a + b + a * b) * \<bar>x * k\<bar>"
    by (simp add: abs_mult algebra_simps)
  finally show ?thesis
    by (simp add: close_def)
qed

lemma close_trans:
  assumes "close a x w" and "close b y x" and "0 \<le> a" and "0 \<le> b"
  shows "close (a + b + a * b) y w"
  using close_mult [of a x w b y 1] assms by simp

lemma close_mult_le:
  assumes "close a y x" and "close b z (y * k)" and "0 \<le> a" and "0 \<le> b"
    and "a + b + a * b \<le> c"
  shows "close c z (x * k)"
  using close_mult [OF assms(1-4)] assms(5)
  unfolding close_def by (meson abs_ge_zero mult_right_mono order_trans)

lemma close_trans_le:
  assumes "close a x w" and "close b y x" and "0 \<le> a" and "0 \<le> b"
    and "a + b + a * b \<le> c"
  shows "close c y w"
  using close_mult_le [of a x w b y 1 c] assms by simp

lemma within_range:
  fixes x :: real
  assumes "a \<le> \<bar>x\<bar>" and "\<bar>x\<bar> \<le> b" and "1 / 2 ^ 100 \<le> a" and "b \<le> 2 ^ 100"
  shows "1 / 2 ^ 100 \<le> \<bar>x\<bar>" and "\<bar>x\<bar> \<le> 2 ^ 100"
  using assms by linarith+

lemma close_weaken: "close a y x \<Longrightarrow> a \<le> b \<Longrightarrow> close b y x"
  unfolding close_def by (meson abs_ge_zero mult_right_mono order_trans)

lemma close_bounds:
  assumes "close a y x" and "a \<le> 1 / 2"
  shows "\<bar>x\<bar> / 2 \<le> \<bar>y\<bar>" and "\<bar>y\<bar> \<le> 2 * \<bar>x\<bar>"
proof -
  have "a * \<bar>x\<bar> \<le> (1 / 2) * \<bar>x\<bar>"
    using assms(2) by (intro mult_right_mono) simp_all
  with assms(1) have "\<bar>y - x\<bar> \<le> \<bar>x\<bar> / 2"
    by (simp add: close_def)
  then show "\<bar>x\<bar> / 2 \<le> \<bar>y\<bar>" and "\<bar>y\<bar> \<le> 2 * \<bar>x\<bar>"
    by linarith+
qed

lemma float64_close:
  assumes "1 / 2 ^ 100 \<le> \<bar>x\<bar>" and "\<bar>x\<bar> \<le> 2 ^ 100"
  shows "\<exists>y. float64 x = Finite y \<and> close (1 / 2 ^ 53) y x"
proof -
  have "(2::real) powi (- 1022) \<le> 2 powi (- 100)" "(2::real) powi 100 \<le> 2 powi 1023"
    by (intro power_int_increasing; simp)+
  then have "2 powi (- 1022) \<le> \<bar>x\<bar>" "\<bar>x\<bar> \<le> 2 powi 1023"
    using assms by (simp_all add: power_int_minus_divide)
  from round_to_rel [OF this, of 53] show ?thesis
    by (simp add: float64_def close_def)
qed

lemma float32_close:
  assumes "1 / 2 ^ 100 \<le> \<bar>x\<bar>" and "\<bar>x\<bar> \<le> 2 ^ 100"
  shows "\<exists>y. float32 x = Finite y \<and> close (1 / 2 ^ 24) y x"
proof -
  have "(2::real) powi (- 126) \<le> 2 powi (- 100)" "(2::real) powi 100 \<le> 2 powi 127"
    by (intro power_int_increasing; simp)+
  then have "2 powi (- 126) \<le> \<bar>x\<bar>" "\<bar>x\<bar> \<le> 2 powi 127"
    using assms by (simp_all add: power_int_minus_divide)
  from round_to_rel [OF this, of 24] show ?thesis
    by (simp add: float32_def close_def)
qed

lemma float64_0 [simp]: "float64 0 = Finite 0"
  by (simp add: float64_def round_to_def)

lemma float32_0 [simp]: "float32 0 = Finite 0"
  by (simp add: float32_def round_to_def)

lemma mm2m_value: "mm2m = Finite (1152921504606847 / 2 ^ 60)"
  by (simp add: mm2m_def float64_mm)

lemma wrap64_id: "- (2 ^ 63) \<le> n \<Longrightarrow> n < 2 ^ 63 \<Longrightarrow> wrap64 n = n"
  by (simp add: wrap64_def)

lemma times_square_size_close:
  assumes "sq = PyInt n \<and> s = real_of_int n \<or> sq = PyFloat (Finite s)"
    and "1 / 2 ^ 40 \<le> \<bar>s\<bar>" and "\<bar>s\<bar> \<le> 2 ^ 40" and "1 \<le> i" and "i \<le> 2 ^ 20"
  shows "\<exists>r. times_square_size i sq = Finite r \<and> close (1 / 2 ^ 51) r (real_of_int i * s)"
proof -
  from assms(4,5) have i: "1 \<le> \<bar>real_of_int i\<bar>" "\<bar>real_of_int i\<bar> \<le> 2 ^ 20"
    by (simp_all add: of_int_le_numeral_power_cancel_iff [symmetric] del: of_int_le_numeral_power_cancel_iff)
  have lo: "1 / 2 ^ 40 \<le> \<bar>real_of_int i * s\<bar>"
  proof -
    have "1 * (1 / 2 ^ 40) \<le> \<bar>real_of_int i\<bar> * \<bar>s\<bar>"
      using i(1) assms(2) by (intro mult_mono) simp_all
    then show ?thesis by (simp add: abs_mult)
  qed
  have hi: "\<bar>real_of_int i * s\<bar> \<le> 2 ^ 60"
  proof -
    have "\<bar>real_of_int i\<bar> * \<bar>s\<bar> \<le> 2 ^ 20 * 2 ^ 40"
      using i(2) assms(3) by (intro mult_mono) simp_all
    then show ?thesis by (simp add: abs_mult)
  qed
  from assms(1) show ?thesis
  proof (elim disjE conjE)
    assume sq: "sq = PyInt n" and s: "s = real_of_int n"
    from hi have "\<bar>real_of_int (i * n)\<bar> \<le> 2 ^ 60"
      by (simp add: s)
    then have "\<bar>i * n\<bar> \<le> 2 ^ 60"
      by (simp only: of_int_abs [symmetric] of_int_le_numeral_power_cancel_iff)
    then have w: "wrap64 (i * n) = i * n"
      by (intro wrap64_id) (simp_all add: abs_le_iff)
    have "1 / 2 ^ 100 \<le> \<bar>real_of_int i * s\<bar>" "\<bar>real_of_int i * s\<bar> \<le> 2 ^ 100"
      by (rule within_range [OF lo hi]; simp)+
    from float64_close [OF this] obtain r where
      "float64 (real_of_int i * s) = Finite r" "close (1 / 2 ^ 53) r (real_of_int i * s)"
      by blast
    then show ?thesis
      by (intro exI [of _ r]) (simp add: times_square_size_def sq w s close_weaken)
  next
    assume sq: "sq = PyFloat (Finite s)"
    have "1 / 2 ^ 100 \<le> \<bar>real_of_int i\<bar>" "\<bar>real_of_int i\<bar> \<le> 2 ^ 100"
      by (rule within_range [OF i]; simp)+
    from float64_close [OF this] obtain r0 where
      r0: "float64 (real_of_int i) = Finite r0" "close (1 / 2 ^ 53) r0 (real_of_int i)"
      by blast
    from close_bounds [OF r0(2)] i have b0: "1 / 2 \<le> \<bar>r0\<bar>" "\<bar>r0\<bar> \<le> 2 ^ 21"
      by simp_all
    have "1 / 2 * (1 / 2 ^ 40) \<le> \<bar>r0\<bar> * \<bar>s\<bar>" "\<bar>r0\<bar> * \<bar>s\<bar> \<le> 2 ^ 21 * 2 ^ 40"
      using b0 assms(2,3) by (intro mult_mono; simp)+
    then have "1 / 2 ^ 41 \<le> \<bar>r0 * s\<bar>" "\<bar>r0 * s\<bar> \<le> 2 ^ 61"
      by (simp_all add: abs_mult)
    then have "1 / 2 ^ 100 \<le> \<bar>r0 * s\<bar>" "\<bar>r0 * s\<bar> \<le> 2 ^ 100"
      by (rule within_range; simp)+
    from float64_close [OF this] obtain r where
      r: "float64 (r0 * s) = Finite r" "close (1 / 2 ^ 53) r (r0 * s)"
      by blast
    have "close (1 / 2 ^ 51) r (real_of_int i * s)"
      by (rule close_mult_le [OF r0(2) r(2)]) simp_all
    with r(1) show ?thesis
      by (intro exI [of _ r]) (simp add: times_square_size_def sq r0(1))
  qed
qed

lemma grid_coordinate_zero:
  assumes "sq = PyInt n \<and> s = real_of_int n \<or> sq = PyFloat (Finite s)"
    and "i = 0 \<or> s = 0" and "0 \<le> i" and "i \<le> 2 ^ 20"
  shows "grid_coordinate i sq = Finite 0"
proof -
  have "times_square_size i sq = Finite 0"
  proof (cases "i = 0")
    case True
    with assms(1) show ?thesis
      by (auto simp: times_square_size_def wrap64_def)
  next
    case False
    with assms(2,3) have s: "s = 0" and i: "1 \<le> \<bar>real_of_int i\<bar>"
      by simp_all
    from assms(4) have "\<bar>real_of_int i\<bar> \<le> 2 ^ 20"
      using assms(3) by (simp add: of_int_le_numeral_power_cancel_iff [symmetric]
          del: of_int_le_numeral_power_cancel_iff)
    with i have "1 / 2 ^ 100 \<le> \<bar>real_of_int i\<bar>" "\<bar>real_of_int i\<bar> \<le> 2 ^ 100"
      by (rule within_range; simp)+
    from float64_close [OF this] obtain r0 where "float64 (real_of_int i) = Finite r0"
      by blast
    with assms(1) s show ?thesis
      by (auto simp: times_square_size_def wrap64_def)
  qed
  then show ?thesis
    by (simp add: grid_coordinate_def mm2m_value to_float32_def)
qed

lemma grid_coordinate_close:
  assumes "sq = PyInt n \<and> s = real_of_int n \<or> sq = PyFloat (Finite s)"
    and "s = 0 \<or> 1 / 2 ^ 40 \<le> \<bar>s\<bar> \<and> \<bar>s\<bar> \<le> 2 ^ 40" and "0 \<le> i" and "i \<le> 2 ^ 20"
  shows "\<exists>x. grid_coordinate i sq = Finite x
           \<and> \<bar>x - real_of_int i * s / 1000\<bar> \<le> \<bar>real_of_int i * s / 1000\<bar> / 2 ^ 23"
proof (cases "i = 0 \<or> s = 0")
  case True
  from grid_coordinate_zero [OF assms(1) True assms(3,4)] True show ?thesis
    by auto
next
  case False
  with assms(2,3) have s: "1 / 2 ^ 40 \<le> \<bar>s\<bar>" "\<bar>s\<bar> \<le> 2 ^ 40" and i1: "1 \<le> i"
    by auto
  from times_square_size_close [OF assms(1) s i1 assms(4)] obtain r1 where
    r1: "times_square_size i sq = Finite r1" "close (1 / 2 ^ 51) r1 (real_of_int i * s)"
    by blast
  define d :: real where "d = 1152921504606847 / 2 ^ 60"
  define t where "t = real_of_int i * s"
  from i1 assms(4) have i: "1 \<le> \<bar>real_of_int i\<bar>" "\<bar>real_of_int i\<bar> \<le> 2 ^ 20"
    by (simp_all add: of_int_le_numeral_power_cancel_iff [symmetric]
        del: of_int_le_numeral_power_cancel_iff)
  have "1 * (1 / 2 ^ 40) \<le> \<bar>real_of_int i\<bar> * \<bar>s\<bar>" "\<bar>real_of_int i\<bar> * \<bar>s\<bar> \<le> 2 ^ 20 * 2 ^ 40"
    using i s by (intro mult_mono; simp)+
  then have t: "1 / 2 ^ 40 \<le> \<bar>t\<bar>" "\<bar>t\<bar> \<le> 2 ^ 60"
    by (simp_all add: t_def abs_mult)
  from close_bounds [OF r1(2) [folded t_def]] t have b1: "1 / 2 ^ 41 \<le> \<bar>r1\<bar>" "\<bar>r1\<bar> \<le> 2 ^ 61"
    by simp_all
  have d: "1 / 2 ^ 10 \<le> \<bar>d\<bar>" "\<bar>d\<bar> \<le> 1 / 2 ^ 9"
    by (simp_all add: d_def)
  have "1 / 2 ^ 41 * (1 / 2 ^ 10) \<le> \<bar>r1\<bar> * \<bar>d\<bar>" "\<bar>r1\<bar> * \<bar>d\<bar> \<le> 2 ^ 61 * (1 / 2 ^ 9)"
    using b1 d by (intro mult_mono; simp)+
  then have rd: "1 / 2 ^ 51 \<le> \<bar>r1 * d\<bar>" "\<bar>r1 * d\<bar> \<le> 2 ^ 52"
    by (simp_all add: abs_mult)
  then have "1 / 2 ^ 100 \<le> \<bar>r1 * d\<bar>" "\<bar>r1 * d\<bar> \<le> 2 ^ 100"
    by (rule within_range; simp)+
  from float64_close [OF this] obtain r2 where
    r2: "float64 (r1 * d) = Finite r2" "close (1 / 2 ^ 53) r2 (r1 * d)"
    by blast
  have c2: "close (1 / 2 ^ 50) r2 (t * d)"
    by (rule close_mult_le [OF r1(2) [folded t_def] r2(2)]) simp_all
  from close_bounds [OF r2(2)] rd have b2: "1 / 2 ^ 52 \<le> \<bar>r2\<bar>" "\<bar>r2\<bar> \<le> 2 ^ 53"
    by simp_all
  then have "1 / 2 ^ 100 \<le> \<bar>r2\<bar>" "\<bar>r2\<bar> \<le> 2 ^ 100"
    by (rule within_range; simp)+
  from float32_close [OF this] obtain v where
    v: "float32 r2 = Finite v" "close (1 / 2 ^ 24) v r2"
    by blast
  have e: "\<bar>d - 1 / 1000\<bar> \<le> 1 / 2 ^ 53 * \<bar>1 / 1000\<bar>"
    by (simp add: d_def)
  have "t * d - t * (1 / 1000) = t * (d - 1 / 1000)"
    by (simp only: right_diff_distrib)
  then have "\<bar>t * d - t * (1 / 1000)\<bar> = \<bar>t\<bar> * \<bar>d - 1 / 1000\<bar>"
    by (simp only: abs_mult)
  also have "\<dots> \<le> \<bar>t\<bar> * (1 / 2 ^ 53 * \<bar>1 / 1000\<bar>)"
    by (intro mult_left_mono e) simp
  also have "\<dots> = 1 / 2 ^ 53 * \<bar>t * (1 / 1000)\<bar>"
    by (simp add: abs_mult)
  finally have "close (1 / 2 ^ 53) (t * d) (t * (1 / 1000))"
    by (simp only: close_def)
  then have "close (1 / 2 ^ 49) r2 (t * (1 / 1000))"
    by (rule close_trans_le [OF _ c2]) simp_all
  then have "close (1 / 2 ^ 23) v (t * (1 / 1000))"
    by (rule close_trans_le [OF _ v(2)]) simp_all
  then have "\<bar>v - real_of_int i * s / 1000\<bar> \<le> \<bar>real_of_int i * s / 1000\<bar> / 2 ^ 23"
    by (simp add: close_def t_def)
  moreover have "fmul64 (Finite r1) mm2m = Finite r2"
    using r2(1) by (simp add: mm2m_value d_def)
  then have "grid_coordinate i sq = Finite v"
    by (simp add: grid_coordinate_def r1(1) to_float32_def v(1))
  ultimately show ?thesis by blast
qed

lemma grid_coordinate_0: "grid_coordinate 0 (PyInt n) = Finite 0"
  by (simp add: grid_coordinate_def times_square_size_def wrap64_def mm2m_value to_float32_def)

lemma grid_coordinate_1_25: "grid_coordinate 1 (PyInt 25) = Finite (13421773 / 536870912)"
proof -
  have "times_square_size 1 (PyInt 25) = Finite 25"
    by (simp add: times_square_size_def wrap64_def float64_25)
  moreover have "fmul64 (Finite 25) mm2m = Finite (7205759403792794 / 2 ^ 58)"
    unfolding mm2m_value fmul64.simps by (rule float64_25mm)
  ultimately show ?thesis
    unfolding grid_coordinate_def to_float32_def by (simp only: fval.case float32_25mm)
qed

section \<open>Concrete runs\<close>

lemma object_points_1_1:
  "object_points (1, 1) (PyInt 1) = Inr [(Finite 0, Finite 0, Finite 0)]"
  by (simp add: object_points_def mgrid_pairs_def grid_coordinate_0)

lemma inv_transl: "inv4 (transl x y z) = Inr (transl (-x) (-y) (-z))"
  by (simp add: inv4_def transl_def unfold4 tab4_def)

lemma hom_transl: "hom_mat eye3 (Vec3 x y z) = transl x y z"
  by (simp add: hom_mat_def tab4_def eye3_def el3_def eye4_def el4_def transl_def)

lemma run_three_cameras:
  "\<exists>w'. extrinsic_calibration cvW [0, 1, 2] (1, 1) (PyInt 1) 1 False wW
          = Some (Inr [transl (- 1) 0 0, transl (- 2) 0 0], w')"
  apply (simp add: extrinsic_calibration_def wW_def numeral_nat)
  apply (simp add: chessboard_pose_estimation_def camera_pose_def get_intrinsics_def
      object_points_1_1 find_pose.simps get_rgb_def cvW_def Let_def camW_def hom_transl
      inv_transl)
  apply (simp add: transl_def matmul4_def tab4_def el4_def eye4_def)
  done

lemma object_points_2_1_25:
  "object_points (2, 1) (PyInt 25)
     = Inr [(Finite 0, Finite 0, Finite 0), (Finite (13421773 / 536870912), Finite 0, Finite 0)]"
  by (simp add: object_points_def mgrid_pairs_def numeral_2_eq_2 grid_coordinate_0
      grid_coordinate_1_25)

section \<open>The relative transforms\<close>

lemma relative_transforms_iff:
  "relative_transforms H_ref Hs = Inr out \<longleftrightarrow>
     length out = length Hs \<and>
     (\<forall>k<length Hs. \<exists>H_inv. inv4 (Hs ! k) = Inr H_inv \<and> out ! k = matmul4 H_ref H_inv)"
proof (induction Hs arbitrary: out)
  case Nil
  then show ?case by auto
next
  case (Cons H Hs)
  show ?case
  proof (cases out)
    case Nil
    then show ?thesis by (auto split: sum.splits)
  next
    case (Cons X out')
    have "relative_transforms H_ref (H # Hs) = Inr (X # out') \<longleftrightarrow>
            (\<exists>H_inv. inv4 H = Inr H_inv \<and> X = matmul4 H_ref H_inv)
            \<and> relative_transforms H_ref Hs = Inr out'"
      by (auto split: sum.splits)
    also have "\<dots> \<longleftrightarrow> length (X # out') = length (H # Hs) \<and>
            (\<forall>k<length (H # Hs). \<exists>H_inv. inv4 ((H # Hs) ! k) = Inr H_inv
                \<and> (X # out') ! k = matmul4 H_ref H_inv)"
      unfolding Cons.IH by (simp add: All_less_Suc2) blast
    finally show ?thesis
      unfolding Cons .
  qed
qed

lemma homogeneous_matrices_assembled:
  assumes "homogeneous_matrices cv cams cs sq loops disp w = Some (Inr Hs, w')"
  shows "length Hs = length cams \<and>
         (\<forall>k<length cams. \<exists>wk wk' R t.
            camera_pose cv (cams ! k) cs sq loops disp wk = Some (Inr (R, t), wk')
            \<and> Hs ! k = hom_mat R t)"
  using assms
proof (induction cams arbitrary: w Hs)
  case Nil
  then show ?case by simp
next
  case (Cons c cams)
  from Cons.prems obtain R t w1 Hs' where
    a: "camera_pose cv c cs sq loops disp w = Some (Inr (R, t), w1)"
    and b: "homogeneous_matrices cv cams cs sq loops disp w1 = Some (Inr Hs', w')"
    and c: "Hs = hom_mat R t # Hs'"
    by (auto split: option.splits sum.splits prod.splits)
  from Cons.IH [OF b] a show ?case
    unfolding c by (auto simp: nth_Cons split: nat.splits)
qed

lemma homogeneous_matrices_affine:
  assumes "homogeneous_matrices cv cams cs sq loops disp w = Some (Inr Hs, w')" and "H \<in> set Hs"
  shows "row4 H 3 = Vec4 0 0 0 1"
proof -
  from assms(2) obtain k where "k < length Hs" "H = Hs ! k"
    by (auto simp: in_set_conv_nth)
  with homogeneous_matrices_assembled [OF assms(1)] show ?thesis
    by (auto simp: row4_hom_mat)
qed

section \<open>The log of camera calls\<close>

lemma get_rgb_calls [simp]: "calls (snd (get_rgb c w)) = calls w @ [GetRgb c]"
  by (simp add: get_rgb_def Let_def)

lemma get_rgb_store:
  "store (snd (get_rgb c w)) = (store w)(c := (store w c)\<lparr>pos := pos (store w c) + 1\<rparr>)"
  by (simp add: get_rgb_def Let_def)

lemma get_rgb_fst: "fst (get_rgb c w) = feed (store w c) (pos (store w c))"
  by (simp add: get_rgb_def Let_def)

lemma discard_frames_calls: "calls (discard_frames n c w) = calls w @ replicate n (GetRgb c)"
  by (induction n arbitrary: w) (simp_all add: replicate_app_Cons_same)

lemma warm_up_calls:
  "calls (warm_up cams w) = calls w @ concat (map (\<lambda>c. replicate 10 (GetRgb c)) cams)"
  by (induction cams arbitrary: w) (simp_all add: discard_frames_calls)

lemma find_pose_Some:
  assumes "find_pose cv c sz objp mtx w = Some ((R, t), w')"
  shows "\<exists>k corners rot_vec.
           findChessboardCorners cv (cvtColor cv (feed (store w c) (pos (store w c) + k))) sz
             = (True, corners)
         \<and> solvePnP cv objp
             (cornerSubPix cv (cvtColor cv (feed (store w c) (pos (store w c) + k))) corners) mtx
             = (True, rot_vec, t)
         \<and> R = Rodrigues cv rot_vec
         \<and> calls w' = calls w @ replicate (Suc k) (GetRgb c)"
  using assms
proof (induction cv c sz objp mtx w "((R, t), w')"
    rule: find_pose.raw_induct [rotated 1, consumes 1, case_names step])
  case (step find_pose cv c sz objp mtx w)
  let ?w1 = "snd (get_rgb c w)"
  let ?img = "feed (store w c) (pos (store w c))"
  let ?gray = "cvtColor cv ?img"
  obtain found corners where f: "findChessboardCorners cv ?gray sz = (found, corners)"
    by (cases "findChessboardCorners cv ?gray sz")
  obtain ok rot_vec trasl_vec where
    s: "solvePnP cv objp (cornerSubPix cv ?gray corners) mtx = (ok, rot_vec, trasl_vec)"
    by (cases "solvePnP cv objp (cornerSubPix cv ?gray corners) mtx")
  have st: "feed (store ?w1 c) = feed (store w c)" "pos (store ?w1 c) = Suc (pos (store w c))"
    by (simp_all add: get_rgb_store)
  show ?case
  proof (cases "found \<and> ok")
    case True
    with step.hyps(2) f s have "R = Rodrigues cv rot_vec" "t = trasl_vec" "w' = ?w1"
      by (simp_all add: Let_def split_beta get_rgb_fst)
    with True f s show ?thesis
      by (intro exI [of _ 0] exI [of _ corners] exI [of _ rot_vec]) simp
  next
    case False
    with step.hyps(2) f s have "find_pose cv c sz objp mtx ?w1 = Some ((R, t), w')"
      by (auto simp: Let_def split_beta get_rgb_fst split: if_splits)
    from step.hyps(1) [OF this] obtain k corners' rot_vec' where
      "findChessboardCorners cv (cvtColor cv (feed (store w c) (pos (store w c) + Suc k))) sz
         = (True, corners')"
      "solvePnP cv objp
         (cornerSubPix cv (cvtColor cv (feed (store w c) (pos (store w c) + Suc k))) corners') mtx
         = (True, rot_vec', t)"
      "R = Rodrigues cv rot_vec'"
      "calls w' = calls w @ replicate (Suc (Suc k)) (GetRgb c)"
      by (auto simp: st)
    then show ?thesis by blast
  qed
qed

lemma get_intrinsics_simps [simp]:
  "fst (get_intrinsics c w) = intr (store w c)"
  "calls (snd (get_intrinsics c w)) = calls w @ [GetIntrinsics c]"
  "store (snd (get_intrinsics c w)) = store w"
  by (simp_all add: get_intrinsics_def)

lemma chessboard_pose_estimation_Some:
  assumes "chessboard_pose_estimation cv c sz sq disp w = Some (Inr (R, t), w')"
  shows "\<exists>objp k corners rot_vec.
           object_points sz sq = Inr objp
         \<and> findChessboardCorners cv (cvtColor cv (feed (store w c) (pos (store w c) + k))) sz
             = (True, corners)
         \<and> solvePnP cv objp
             (cornerSubPix cv (cvtColor cv (feed (store w c) (pos (store w c) + k))) corners)
             (camera_matrix (intr (store w c)))
             = (True, rot_vec, t)
         \<and> R = Rodrigues cv rot_vec
         \<and> calls w' = calls w @ GetIntrinsics c # replicate (Suc k) (GetRgb c)"
proof -
  let ?w1 = "snd (get_intrinsics c w)"
  from assms obtain objp where o: "object_points sz sq = Inr objp"
    and f: "find_pose cv c sz objp (camera_matrix (intr (store w c))) ?w1 = Some ((R, t), w')"
    by (auto simp: chessboard_pose_estimation_def Let_def split_beta
        split: sum.splits option.splits)
  from find_pose_Some [OF f] o show ?thesis
    by simp
qed

lemma chessboard_pose_estimation_calls:
  assumes "chessboard_pose_estimation cv c sz sq disp w = Some (r, w')"
  shows "\<exists>k. calls w' = calls w @ GetIntrinsics c # replicate k (GetRgb c)"
proof (cases r)
  case (Inl e)
  with assms have "w' = snd (get_intrinsics c w)"
    by (auto simp: chessboard_pose_estimation_def Let_def split_beta
        split: sum.splits option.splits)
  then show ?thesis
    by (intro exI [of _ 0]) simp
next
  case (Inr p)
  with assms have "chessboard_pose_estimation cv c sz sq disp w = Some (Inr (fst p, snd p), w')"
    by simp
  from chessboard_pose_estimation_Some [OF this] obtain k where
    "calls w' = calls w @ GetIntrinsics c # replicate (Suc k) (GetRgb c)"
    by blast
  then show ?thesis ..
qed

lemma count_list_replicate: "count_list (replicate k x) y = (if x = y then k else 0)"
  by (induction k) auto

lemma sample_poses_calls:
  assumes "sample_poses cv c sz sq disp n w = Some (r, w')"
  shows "\<exists>rest. calls w' = calls w @ rest
           \<and> (rest \<noteq> [] \<longrightarrow> hd rest = GetIntrinsics c)
           \<and> (\<forall>poses. r = Inr poses \<longrightarrow> length poses = n
                 \<and> count_list rest (GetIntrinsics c) = n \<and> (n \<noteq> 0 \<longrightarrow> rest \<noteq> []))"
  using assms
proof (induction n arbitrary: w r)
  case 0
  then show ?case by auto
next
  case (Suc n)
  from Suc.prems obtain r1 w1 where
    a: "chessboard_pose_estimation cv c sz sq disp w = Some (r1, w1)"
    by (auto split: option.splits)
  from chessboard_pose_estimation_calls [OF a] obtain k where
    k: "calls w1 = calls w @ GetIntrinsics c # replicate k (GetRgb c)" ..
  show ?case
  proof (cases r1)
    case (Inl e)
    with Suc.prems a have "r = Inl e" "w' = w1" by auto
    with k show ?thesis by auto
  next
    case (Inr p)
    with Suc.prems a obtain r2 where
      b: "sample_poses cv c sz sq disp n w1 = Some (r2, w')"
      and r: "r = (case r2 of Inl e \<Rightarrow> Inl e | Inr poses \<Rightarrow> Inr (p # poses))"
      by (auto split: option.splits sum.splits)
    from Suc.IH [OF b] obtain rest where
      c: "calls w' = calls w1 @ rest"
      and d: "\<forall>poses. r2 = Inr poses \<longrightarrow> length poses = n \<and> count_list rest (GetIntrinsics c) = n"
      by blast
    have "calls w' = calls w @ (GetIntrinsics c # replicate k (GetRgb c) @ rest)"
      by (simp add: c k)
    moreover have "\<forall>poses. r = Inr poses \<longrightarrow> length poses = Suc n
        \<and> count_list (GetIntrinsics c # replicate k (GetRgb c) @ rest) (GetIntrinsics c) = Suc n"
      using d r by (auto simp: count_list_replicate split: sum.splits)
    ultimately show ?thesis
      by (intro exI [of _ "GetIntrinsics c # replicate k (GetRgb c) @ rest"]) simp
  qed
qed

lemma sample_poses_one:
  "sample_poses cv c sz sq disp (Suc 0) w = Some (Inr poses, w') \<longleftrightarrow>
     (\<exists>p. poses = [p] \<and> chessboard_pose_estimation cv c sz sq disp w = Some (Inr p, w'))"
  by (auto split: option.splits sum.splits)

lemma index3_cases: "i < 3 \<Longrightarrow> i = 0 \<or> i = 1 \<or> i = (2::nat)"
  by arith

lemma el3_tab3: "i < 3 \<Longrightarrow> j < 3 \<Longrightarrow> el3 (tab3 f) i j = f i j"
  by (drule index3_cases, drule index3_cases) (elim disjE; simp add: tab3_def el3_def)

lemma at3_mean_vec3:
  "i < 3 \<Longrightarrow> at3 (mean_vec3 ts) i = sum_list (map (\<lambda>t. at3 t i) ts) / real (length ts)"
  by (drule index3_cases) (elim disjE; simp add: mean_vec3_def)

lemma camera_pose_calls:
  assumes "camera_pose cv c sz sq loops disp w = Some (r, w')"
  shows "\<exists>rest. calls w' = calls w @ rest
           \<and> (rest \<noteq> [] \<longrightarrow> hd rest = GetIntrinsics c)
           \<and> (rest = [] \<longrightarrow> (\<exists>e. r = Inl e))"
proof (cases "loops = 1")
  case True
  with assms chessboard_pose_estimation_calls [of cv c sz sq disp w r w']
  show ?thesis by (auto simp: camera_pose_def)
next
  case False
  with assms obtain r1 where
    s: "sample_poses cv c sz sq disp (nat loops) w = Some (r1, w')"
    and r: "r = (case r1 of Inl e \<Rightarrow> Inl e
                 | Inr poses \<Rightarrow> if poses = [] then Inl LinAlgError
                     else Inr (mean_mat3 (map fst poses), mean_vec3 (map snd poses)))"
    by (auto simp: camera_pose_def split: option.splits sum.splits if_splits)
  from sample_poses_calls [OF s] obtain rest where
    "calls w' = calls w @ rest" "rest \<noteq> [] \<longrightarrow> hd rest = GetIntrinsics c"
    "\<forall>poses. r1 = Inr poses \<longrightarrow> length poses = nat loops \<and> (nat loops \<noteq> 0 \<longrightarrow> rest \<noteq> [])"
    by blast
  then show ?thesis
    unfolding r by (intro exI [of _ rest]) (auto split: sum.splits)
qed

lemma homogeneous_matrices_calls:
  assumes "homogeneous_matrices cv cams sz sq loops disp w = Some (r, w')"
  shows "\<exists>rest. calls w' = calls w @ rest
           \<and> (rest \<noteq> [] \<longrightarrow> hd rest = GetIntrinsics (hd cams))"
  using assms
proof (induction cams arbitrary: w r)
  case Nil
  then show ?case by simp
next
  case (Cons c cams)
  from Cons.prems obtain r1 w1 where
    a: "camera_pose cv c sz sq loops disp w = Some (r1, w1)"
    by (auto split: option.splits)
  from camera_pose_calls [OF a] obtain rest1 where
    k: "calls w1 = calls w @ rest1" "rest1 \<noteq> [] \<longrightarrow> hd rest1 = GetIntrinsics c"
      "rest1 = [] \<longrightarrow> (\<exists>e. r1 = Inl e)"
    by blast
  show ?case
  proof (cases r1)
    case (Inl e)
    with Cons.prems a have "w' = w1" by auto
    with k show ?thesis by auto
  next
    case (Inr p)
    with Cons.prems a obtain r2 where
      b: "homogeneous_matrices cv cams sz sq loops disp w1 = Some (r2, w')"
      by (auto split: option.splits sum.splits prod.splits)
    from Cons.IH [OF b] obtain rest2 where "calls w' = calls w1 @ rest2" by blast
    with k Inr show ?thesis
      by (intro exI [of _ "rest1 @ rest2"]) auto
  qed
qed

lemma count_list_warm_up:
  "count_list (concat (map (\<lambda>c. replicate n (GetRgb c)) cams)) (GetRgb c) = n * count_list cams c"
proof (induction cams)
  case Nil
  then show ?case by simp
next
  case (Cons a cams)
  then show ?case by (simp add: count_list_replicate)
qed

section \<open>Lists and grids\<close>

lemma relative_transforms_swap:
  assumes "relative_transforms H Hs = Inr full" and "i < length Hs" and "j < length Hs"
  shows "relative_transforms H (Hs[i := Hs ! j, j := Hs ! i])
           = Inr (full[i := full ! j, j := full ! i])"
proof -
  from assms(1) have len: "length full = length Hs"
    and e: "\<And>k. k < length Hs \<Longrightarrow>
              \<exists>H_inv. inv4 (Hs ! k) = Inr H_inv \<and> full ! k = matmul4 H H_inv"
    by (simp_all add: relative_transforms_iff)
  have "\<exists>H_inv. inv4 (Hs[i := Hs ! j, j := Hs ! i] ! k) = Inr H_inv
          \<and> full[i := full ! j, j := full ! i] ! k = matmul4 H H_inv"
    if "k < length Hs" for k
    using e [OF that] e [OF assms(2)] e [OF assms(3)] that assms(2,3) len
    by (simp add: nth_list_update)
  then show ?thesis
    by (simp add: relative_transforms_iff len)
qed

lemma grid_index_less:
  assumes "i < a" and "j < b"
  shows "j * a + i < b * (a::nat)"
proof -
  from assms(1) have "j * a + i < Suc j * a" by simp
  also from assms(2) have "Suc j * a \<le> b * a"
    by (intro mult_le_mono1) simp
  finally show ?thesis .
qed

lemma length_concat_grid: "length (concat (map (\<lambda>j. map (f j) [0..<a]) [0..<b])) = b * a"
  by (induction b) simp_all

lemma concat_grid_nth:
  assumes "i < a" and "j < b"
  shows "concat (map (\<lambda>j. map (f j) [0..<a]) [0..<b]) ! (j * a + i) = f j i"
  using assms(2)
proof (induction b)
  case 0
  then show ?case by simp
next
  case (Suc b)
  note len = length_concat_grid [of f a b]
  show ?case
  proof (cases "j < b")
    case True
    then have "j * a + i < b * a"
      using assms(1) by (intro grid_index_less)
    with Suc.IH [OF True] show ?thesis
      by (simp add: nth_append len)
  next
    case False
    with Suc.prems have "j = b" by simp
    with assms(1) show ?thesis
      by (simp add: nth_append len)
  qed
qed

lemma length_mgrid_pairs: "length (mgrid_pairs a b) = nat a * nat b"
  by (simp add: mgrid_pairs_def length_concat_grid mult.commute)

section \<open>Rotations and their means\<close>

lemma near_rotation_rot_z: "near_rotation 0 (rot_z a)"
proof -
  have "sin a * sin a + cos a * cos a = 1" "cos a * cos a + sin a * sin a = 1"
    using sin_cos_squared_add3 [of a] by (simp_all add: add.commute)
  then show ?thesis
    by (simp add: near_rotation_def rot_z_def det3_def el3_def max_deviation3_def entries3_def
        matmul3_def transpose3_def tab3_def eye3_def)
qed

lemma run_half_turn:
  "map_option fst (camera_pose cvR 0 (1, 1) (PyInt 1) 2 False wR)
     = Some (Inr (half_turn_mean, Vec3 0 0 1))"
  apply (simp add: camera_pose_def numeral_2_eq_2)
  apply (simp add: chessboard_pose_estimation_def get_intrinsics_def object_points_1_1
      find_pose.simps get_rgb_def cvR_def Let_def wR_def camR_def)
  apply (simp add: mean_mat3_def mean_vec3_def rot_z_def tab3_def el3_def half_turn_mean_def)
  done

lemma sample_poses_rotations:
  assumes "sample_poses cv c sz sq disp n w = Some (Inr poses, w')" and "p \<in> set poses"
  shows "\<exists>v. fst p = Rodrigues cv v"
  using assms
proof (induction n arbitrary: w poses)
  case 0
  then show ?case by simp
next
  case (Suc n)
  from Suc.prems(1) obtain q w1 poses' where
    a: "chessboard_pose_estimation cv c sz sq disp w = Some (Inr q, w1)"
    and b: "sample_poses cv c sz sq disp n w1 = Some (Inr poses', w')"
    and c: "poses = q # poses'"
    by (auto split: option.splits sum.splits)
  from a have "chessboard_pose_estimation cv c sz sq disp w = Some (Inr (fst q, snd q), w1)"
    by simp
  from chessboard_pose_estimation_Some [OF this] have "\<exists>v. fst q = Rodrigues cv v"
    by blast
  with Suc.IH [OF b] Suc.prems(2) show ?case
    unfolding c by auto
qed

lemma sum_list_const:
  "\<forall>x\<in>set xs. f x = (a::real) \<Longrightarrow> sum_list (map f xs) = real (length xs) * a"
  by (induction xs) (simp_all add: algebra_simps)

lemma tab3_el3: "tab3 (el3 M) = M"
proof -
  obtain a00 a01 a02 a10 a11 a12 a20 a21 a22 where
    "M = Mat3 (Vec3 a00 a01 a02) (Vec3 a10 a11 a12) (Vec3 a20 a21 a22)"
    by (rule mat3_shape)
  then show ?thesis
    by (simp add: tab3_def el3_def)
qed

lemma mean_mat3_same:
  assumes "Rs \<noteq> []" and "\<forall>R\<in>set Rs. R = R0"
  shows "mean_mat3 Rs = R0"
proof -
  have "sum_list (map (\<lambda>R. el3 R i j) Rs) / real (length Rs) = el3 R0 i j" for i j
    using assms by (subst sum_list_const [where a = "el3 R0 i j"]) simp_all
  then show ?thesis
    by (simp add: mean_mat3_def tab3_el3)
qed

section \<open>Runs that return\<close>

lemma same_devices_refl [simp]: "same_devices w w"
  by (simp add: same_devices_def)











lemma camera_pose_rotation:
  assumes "camera_pose cv c sz sq loops disp w = Some (Inr (R, t), w')"
  shows "\<exists>Rs. Rs \<noteq> [] \<and> (\<forall>R'\<in>set Rs. \<exists>v. R' = Rodrigues cv v) \<and> R = mean_mat3 Rs"
proof (cases "loops = 1")
  case True
  with assms have "chessboard_pose_estimation cv c sz sq disp w = Some (Inr (R, t), w')"
    by (simp add: camera_pose_def)
  from chessboard_pose_estimation_Some [OF this] obtain v where "R = Rodrigues cv v"
    by blast
  moreover have "mean_mat3 [R] = R"
    by (rule mean_mat3_same) simp_all
  ultimately show ?thesis
    by (intro exI [of _ "[R]"]) auto
next
  case False
  with assms obtain poses where
    s: "sample_poses cv c sz sq disp (nat loops) w = Some (Inr poses, w')"
    and ne: "poses \<noteq> []" and R: "R = mean_mat3 (map fst poses)"
    by (auto simp: camera_pose_def split: option.splits sum.splits if_splits)
  from sample_poses_rotations [OF s] ne R show ?thesis
    by (intro exI [of _ "map fst poses"]) auto
qed






section \<open>More concrete runs\<close>

lemma run_hm_012:
  "\<exists>w1. homogeneous_matrices cvW [0, 1, 2] (1, 1) (PyInt 1) 1 False (warm_up [0, 1, 2] wW)
          = Some (Inr [transl 0 0 1, transl 1 0 1, transl 2 0 1], w1)"
  apply (simp add: wW_def numeral_nat)
  apply (simp add: chessboard_pose_estimation_def camera_pose_def get_intrinsics_def
      object_points_1_1 find_pose.simps get_rgb_def cvW_def Let_def camW_def hom_transl)
  done

lemma run_hm_021:
  "\<exists>w2. homogeneous_matrices cvW [0, 2, 1] (1, 1) (PyInt 1) 1 False (warm_up [0, 2, 1] wW)
          = Some (Inr [transl 0 0 1, transl 2 0 1, transl 1 0 1], w2)"
  apply (simp add: wW_def numeral_nat)
  apply (simp add: chessboard_pose_estimation_def camera_pose_def get_intrinsics_def
      object_points_1_1 find_pose.simps get_rgb_def cvW_def Let_def camW_def hom_transl)
  done


section \<open>The claims\<close>




text \<open>
  Claim C2 fails for the mean of several samples.  In the second scene the two samples of
  the camera are the identity and the half turn about z, both rotations; their
  element-wise mean has determinant 0, not within 1/1000 of 1.
\<close>

theorem mean_of_rotations_counterexample:
  "near_rotation 0 (Rodrigues cvR (Vec3 0 0 0)) \<and> near_rotation 0 (Rodrigues cvR (Vec3 0 0 pi))
   \<and> map_option fst (camera_pose cvR 0 (1, 1) (PyInt 1) 2 False wR)
       = Some (Inr (half_turn_mean, Vec3 0 0 1))
   \<and> \<not> near_rotation (1 / 1000) half_turn_mean"
proof -
  have "\<not> near_rotation (1 / 1000) half_turn_mean"
    by (simp add: near_rotation_def half_turn_mean_def det3_def el3_def)
  then show ?thesis
    using run_half_turn by (simp add: cvR_def near_rotation_rot_z)
qed

text \<open>
  Claim C2, amended.  When the solver returns rotations up to \<open>eps\<close>, so is the rotation of
  the pose of a camera that is sampled once, and so is the mean when all the sampled
  rotations of the camera are the same matrix.
\<close>

theorem pose_rotation_kept:
  assumes "\<And>v. near_rotation eps (Rodrigues cv v)"
    and "camera_pose cv c cs sq loops disp w = Some (Inr (R, t), w')"
    and "loops = 1 \<or> (\<exists>poses R0. sample_poses cv c cs sq disp (nat loops) w = Some (Inr poses, w')
                       \<and> (\<forall>p\<in>set poses. fst p = R0))"
  shows "near_rotation eps R"
proof (cases "loops = 1")
  case True
  with assms(2) have "chessboard_pose_estimation cv c cs sq disp w = Some (Inr (R, t), w')"
    by (simp add: camera_pose_def)
  from chessboard_pose_estimation_Some [OF this] obtain v where "R = Rodrigues cv v"
    by blast
  with assms(1) show ?thesis by simp
next
  case False
  with assms(3) obtain poses R0 where
    s: "sample_poses cv c cs sq disp (nat loops) w = Some (Inr poses, w')"
    and same: "\<forall>p\<in>set poses. fst p = R0"
    by blast
  from assms(2) False s have ne: "poses \<noteq> []" and R: "R = mean_mat3 (map fst poses)"
    by (auto simp: camera_pose_def split: if_splits)
  from ne same have "R = R0"
    unfolding R by (intro mean_mat3_same) auto
  moreover from ne obtain p where p: "p \<in> set poses"
    by (cases poses) auto
  from sample_poses_rotations [OF s p] same p obtain v where "R0 = Rodrigues cv v"
    by auto
  ultimately show ?thesis
    using assms(1) by simp
qed

text \<open>
  One sample of the first camera of the first scene.
\<close>

theorem pose_rotation_kept_witness:
  "near_rotation 0 eye3
   \<and> (\<exists>w'. camera_pose cvW 0 (1, 1) (PyInt 1) 1 False wW = Some (Inr (eye3, Vec3 0 0 1), w'))"
proof -
  have p: "near_rotation 0 (Rodrigues cvW v)" for v
    by (simp add: cvW_def near_rotation_def eye3_def det3_def el3_def max_deviation3_def
        entries3_def matmul3_def transpose3_def tab3_def)
  have "\<exists>w'. camera_pose cvW 0 (1, 1) (PyInt 1) 1 False wW = Some (Inr (eye3, Vec3 0 0 1), w')"
    by (simp add: camera_pose_def chessboard_pose_estimation_def get_intrinsics_def
        object_points_1_1 find_pose.simps get_rgb_def cvW_def Let_def wW_def camW_def)
  then obtain w' where
    r: "camera_pose cvW 0 (1, 1) (PyInt 1) 1 False wW = Some (Inr (eye3, Vec3 0 0 1), w')" ..
  from pose_rotation_kept [of 0 cvW, OF p r] r show ?thesis
    by auto
qed

text \<open>
  Claim C3.  A pose of a camera obtained with \<open>loops \<ge> 1\<close> comes from \<open>loops\<close> estimates made
  one after the other, each on the world the previous one left (\<open>sample_poses\<close>); each
  estimate asks the camera for its intrinsics once, and the log shows \<open>loops\<close> more such
  calls.  With \<open>loops = 1\<close> the pose is the estimate itself; with more, every entry of the
  rotation and of the translation is the sum of that entry over the samples divided by
  \<open>loops\<close>.
\<close>

theorem camera_pose_samples:
  assumes "camera_pose cv c cs sq loops disp w = Some (Inr (R, t), w')" and "1 \<le> loops"
  shows "\<exists>poses. sample_poses cv c cs sq disp (nat loops) w = Some (Inr poses, w')
           \<and> length poses = nat loops
           \<and> count_list (calls w') (GetIntrinsics c)
               = count_list (calls w) (GetIntrinsics c) + nat loops
           \<and> (loops = 1 \<longrightarrow>
                 chessboard_pose_estimation cv c cs sq disp w = Some (Inr (R, t), w')
                 \<and> poses = [(R, t)])
           \<and> (1 < loops \<longrightarrow>
                 (\<forall>i<3. \<forall>j<3. el3 R i j
                     = sum_list (map (\<lambda>p. el3 (fst p) i j) poses) / real_of_int loops)
                 \<and> (\<forall>i<3. at3 t i
                     = sum_list (map (\<lambda>p. at3 (snd p) i) poses) / real_of_int loops))"
proof -
  obtain poses where
    s: "sample_poses cv c cs sq disp (nat loops) w = Some (Inr poses, w')"
    and one: "loops = 1 \<longrightarrow>
        chessboard_pose_estimation cv c cs sq disp w = Some (Inr (R, t), w') \<and> poses = [(R, t)]"
    and more: "1 < loops \<longrightarrow> R = mean_mat3 (map fst poses) \<and> t = mean_vec3 (map snd poses)"
  proof (cases "loops = 1")
    case True
    with assms(1) have "chessboard_pose_estimation cv c cs sq disp w = Some (Inr (R, t), w')"
      by (simp add: camera_pose_def)
    with True that [of "[(R, t)]"] show ?thesis
      by (simp add: sample_poses_one)
  next
    case False
    with assms that show ?thesis
      by (auto simp: camera_pose_def split: option.splits sum.splits if_splits)
  qed
  from sample_poses_calls [OF s] obtain rest where
    rest: "calls w' = calls w @ rest" "length poses = nat loops"
      "count_list rest (GetIntrinsics c) = nat loops"
    by blast
  have len: "real (length poses) = real_of_int loops"
    using rest(2) assms(2) by simp
  have "el3 R i j = sum_list (map (\<lambda>p. el3 (fst p) i j) poses) / real_of_int loops"
    if "1 < loops" "i < 3" "j < 3" for i j
    using more that by (simp add: mean_mat3_def el3_tab3 comp_def len)
  moreover have "at3 t i = sum_list (map (\<lambda>p. at3 (snd p) i) poses) / real_of_int loops"
    if "1 < loops" "i < 3" for i
    using more that by (simp add: at3_mean_vec3 comp_def len)
  ultimately show ?thesis
    using s one rest by (intro exI [of _ poses]) simp
qed

text \<open>
  Two samples that differ: the identity and the half turn of the second scene.
\<close>

theorem camera_pose_samples_witness:
  "\<exists>w'. camera_pose cvR 0 (1, 1) (PyInt 1) 2 False wR = Some (Inr (half_turn_mean, Vec3 0 0 1), w')
     \<and> (1::int) \<le> 2
     \<and> count_list (calls w') (GetIntrinsics 0) = count_list (calls wR) (GetIntrinsics 0) + nat 2"
proof -
  from run_half_turn obtain w' where
    r: "camera_pose cvR 0 (1, 1) (PyInt 1) 2 False wR = Some (Inr (half_turn_mean, Vec3 0 0 1), w')"
    by force
  have l: "(1::int) \<le> 2" by simp
  from camera_pose_samples [OF r l] have
    "count_list (calls w') (GetIntrinsics 0) = count_list (calls wR) (GetIntrinsics 0) + nat 2"
    by blast
  with r show ?thesis by auto
qed

text \<open>
  Claim C5.  With fewer than two cameras the assertion fails at once: the call returns
  \<open>AssertionError\<close> and the world it returns is the one it received, so no frame was
  taken, no intrinsics were asked for, and the log of camera calls is unchanged.
\<close>

theorem too_few_cameras_fails:
  assumes "length cameras < 2"
  shows "extrinsic_calibration cv cameras cs sq loops disp w = Some (Inl AssertionError, w)"
  using assms by (simp add: extrinsic_calibration_def)

text \<open>
  A list of one camera.
\<close>

theorem too_few_cameras_fails_witness:
  "extrinsic_calibration cvW [0] (1, 1) (PyInt 1) 1 False wW = Some (Inl AssertionError, wW)"
  using too_few_cameras_fails [of "[0]" cvW "(1, 1)" "PyInt 1" 1 False wW] by simp

text \<open>
  Claim C6.  Let the cameras at two positions \<open>i, j \<ge> 1\<close> change places, and let every camera
  give the transform it gave before, so that the assembled transforms are those of the
  first run with the entries \<open>i\<close> and \<open>j\<close> exchanged.  Then the second run returns the list of
  the first run with the entries \<open>i - 1\<close> and \<open>j - 1\<close> exchanged, each matrix unchanged.
\<close>

theorem swap_non_reference_cameras:
  assumes "1 \<le> i" and "i < length cameras" and "1 \<le> j" and "j < length cameras"
    and "extrinsic_calibration cv cameras cs sq loops disp w = Some (Inr out, w1)"
    and "homogeneous_matrices cv cameras cs sq loops disp (warm_up cameras w)
           = Some (Inr Hs, w1)"
    and "homogeneous_matrices cv (cameras[i := cameras ! j, j := cameras ! i]) cs sq loops disp
           (warm_up (cameras[i := cameras ! j, j := cameras ! i]) w)
           = Some (Inr (Hs[i := Hs ! j, j := Hs ! i]), w2)"
  shows "extrinsic_calibration cv (cameras[i := cameras ! j, j := cameras ! i]) cs sq loops disp w
           = Some (Inr (out[i - 1 := out ! (j - 1), j - 1 := out ! (i - 1)]), w2)"
proof -
  let ?Hs' = "Hs[i := Hs ! j, j := Hs ! i]"
  from homogeneous_matrices_assembled [OF assms(6)] have len: "length Hs = length cameras"
    by simp
  with assms(2) obtain H_ref rest where Hs: "Hs = H_ref # rest"
    by (cases Hs) auto
  from assms(5,6) assms(2) obtain full where
    r: "relative_transforms H_ref Hs = Inr full" and o: "out = drop 1 full"
    by (auto simp: extrinsic_calibration_def Hs split: if_splits sum.splits)
  from r have lf: "length full = length Hs"
    by (simp add: relative_transforms_iff)
  from assms(1,3) have hd': "?Hs' = H_ref # tl ?Hs'"
    by (cases i; cases j) (simp_all add: Hs)
  have r': "relative_transforms H_ref ?Hs' = Inr (full[i := full ! j, j := full ! i])"
    using r assms(2,4) len by (intro relative_transforms_swap) simp_all
  have n: "2 \<le> length (cameras[i := cameras ! j, j := cameras ! i])"
    using assms(1,2) by simp
  have d: "drop 1 (full[i := full ! j, j := full ! i])
             = out[i - 1 := out ! (j - 1), j - 1 := out ! (i - 1)]"
    using assms(1-4) len lf unfolding o
    by (simp add: drop_update_swap)
  have "(case ?Hs' of [] \<Rightarrow> Some (Inl IndexError, w2)
         | H_ref # _ \<Rightarrow>
             (case relative_transforms H_ref ?Hs' of
                Inl e \<Rightarrow> Some (Inl e, w2)
              | Inr cam1_H_camX \<Rightarrow> Some (Inr (drop 1 cam1_H_camX), w2)))
        = Some (Inr (out[i - 1 := out ! (j - 1), j - 1 := out ! (i - 1)]), w2)"
    by (subst hd', simp only: list.case r' sum.case d)
  with n assms(7) show ?thesis
    by (simp add: extrinsic_calibration_def)
qed

text \<open>
  The second and third of three cameras change places.
\<close>

theorem swap_non_reference_cameras_witness:
  "\<exists>w2. extrinsic_calibration cvW [0, 2, 1] (1, 1) (PyInt 1) 1 False wW
          = Some (Inr [transl (- 2) 0 0, transl (- 1) 0 0], w2)"
proof -
  from run_hm_012 obtain w1 where
    h1: "homogeneous_matrices cvW [0, 1, 2] (1, 1) (PyInt 1) 1 False (warm_up [0, 1, 2] wW)
           = Some (Inr [transl 0 0 1, transl 1 0 1, transl 2 0 1], w1)" ..
  from run_hm_021 obtain w2 where
    h2: "homogeneous_matrices cvW [0, 2, 1] (1, 1) (PyInt 1) 1 False (warm_up [0, 2, 1] wW)
           = Some (Inr [transl 0 0 1, transl 2 0 1, transl 1 0 1], w2)" ..
  have e: "extrinsic_calibration cvW [0, 1, 2] (1, 1) (PyInt 1) 1 False wW
             = Some (Inr [transl (- 1) 0 0, transl (- 2) 0 0], w1)"
    by (simp only: extrinsic_calibration_def h1)
      (simp add: inv_transl, simp add: transl_def matmul4_def tab4_def el4_def)
  have c: "[0::nat, 1, 2][1 := [0, 1, 2] ! 2, 2 := [0, 1, 2] ! 1] = [0, 2, 1]"
    by (simp add: numeral_2_eq_2)
  have d: "[transl 0 0 1, transl 1 0 1, transl 2 0 1]
             [1 := [transl 0 0 1, transl 1 0 1, transl 2 0 1] ! 2,
              2 := [transl 0 0 1, transl 1 0 1, transl 2 0 1] ! 1]
           = [transl 0 0 1, transl 2 0 1, transl 1 0 1]"
    by (simp add: numeral_2_eq_2)
  have h2': "homogeneous_matrices cvW ([0, 1, 2][1 := [0, 1, 2] ! 2, 2 := [0, 1, 2] ! 1])
               (1, 1) (PyInt 1) 1 False
               (warm_up ([0, 1, 2][1 := [0, 1, 2] ! 2, 2 := [0, 1, 2] ! 1]) wW)
             = Some (Inr ([transl 0 0 1, transl 1 0 1, transl 2 0 1]
                   [1 := [transl 0 0 1, transl 1 0 1, transl 2 0 1] ! 2,
                    2 := [transl 0 0 1, transl 1 0 1, transl 2 0 1] ! 1]), w2)"
    unfolding c d by (rule h2)
  have "extrinsic_calibration cvW ([0, 1, 2][1 := [0, 1, 2] ! 2, 2 := [0, 1, 2] ! 1]) (1, 1) (PyInt 1) 1
          False wW
        = Some (Inr ([transl (- 1) 0 0, transl (- 2) 0 0]
             [1 - 1 := [transl (- 1) 0 0, transl (- 2) 0 0] ! (2 - 1),
              2 - 1 := [transl (- 1) 0 0, transl (- 2) 0 0] ! (1 - 1)]), w2)"
    by (rule swap_non_reference_cameras [OF _ _ _ _ e h1 h2']) simp_all
  then show ?thesis
    unfolding c by (intro exI [of _ w2]) simp
qed

text \<open>
  Claim C7.  The transform assembled from a rotation block with non-zero determinant and
  any translation has an inverse, the product of the transform and its inverse is the
  4x4 identity, and so is the entry that the loop over the assembled transforms computes
  at index 0, for the reference camera against itself.  (Exact arithmetic: the identity
  is met exactly, hence within every tolerance.)
\<close>

theorem hom_mat_times_inverse:
  assumes "det3 R \<noteq> 0"
  shows "\<exists>N. inv4 (hom_mat R t) = Inr N \<and> matmul4 (hom_mat R t) N = eye4 \<and>
           (\<forall>Hs out. relative_transforms (hom_mat R t) (hom_mat R t # Hs) = Inr out
                       \<longrightarrow> out ! 0 = eye4)"
proof -
  from assms have "det4 (hom_mat R t) \<noteq> 0"
    by (simp add: det4_hom_mat)
  then obtain N where N: "inv4 (hom_mat R t) = Inr N"
    by (simp add: inv4_def)
  have "matmul4 (hom_mat R t) N = eye4"
    by (rule matmul4_inv4 [OF N])
  then show ?thesis
    using N by (auto split: sum.splits)
qed

text \<open>
  The translation by \<open>(1, 2, 3)\<close>.
\<close>

theorem hom_mat_times_inverse_witness:
  "det3 eye3 \<noteq> 0 \<and> inv4 (hom_mat eye3 (Vec3 1 2 3)) = Inr (transl (- 1) (- 2) (- 3))
     \<and> matmul4 (hom_mat eye3 (Vec3 1 2 3)) (transl (- 1) (- 2) (- 3)) = eye4"
proof -
  have d: "det3 eye3 \<noteq> 0"
    by (simp add: det3_def eye3_def el3_def)
  have i: "inv4 (hom_mat eye3 (Vec3 1 2 3)) = Inr (transl (- 1) (- 2) (- 3))"
    by (simp add: hom_transl inv_transl)
  from hom_mat_times_inverse [OF d, of "Vec3 1 2 3"] d i show ?thesis by auto
qed

text \<open>
  Claim C8.  The log of a call with at least two cameras that returns (a list or an error)
  is the log before the call, then ten \<open>GetRgb\<close> calls for each camera of the list in turn,
  then the calls of the sampling.  The warm-up part holds at least ten frames of every
  camera and no \<open>GetIntrinsics\<close> call, with which every pose estimation begins, and
  the sampling part, unless empty, starts with the \<open>GetIntrinsics\<close> call of the first
  camera.  What \<open>get_rgb\<close> returns during the warm-up is dropped (\<open>discard_frames\<close>).
\<close>

theorem warm_up_before_sampling:
  assumes "extrinsic_calibration cv cameras cs sq loops disp w = Some (r, w')"
    and "2 \<le> length cameras"
  shows "\<exists>rest. calls w' = calls w @ concat (map (\<lambda>c. replicate 10 (GetRgb c)) cameras) @ rest
           \<and> (\<forall>c\<in>set cameras.
                 10 \<le> count_list (concat (map (\<lambda>c. replicate 10 (GetRgb c)) cameras)) (GetRgb c))
           \<and> (\<forall>c. GetIntrinsics c \<notin> set (concat (map (\<lambda>c. replicate 10 (GetRgb c)) cameras)))
           \<and> (rest \<noteq> [] \<longrightarrow> hd rest = GetIntrinsics (hd cameras))
           \<and> (\<exists>r1. homogeneous_matrices cv cameras cs sq loops disp (warm_up cameras w)
                      = Some (r1, w')
                 \<and> calls w' = calls (warm_up cameras w) @ rest)"
proof -
  from assms obtain r1 where
    h: "homogeneous_matrices cv cameras cs sq loops disp (warm_up cameras w) = Some (r1, w')"
    by (auto simp: extrinsic_calibration_def split: option.splits sum.splits list.splits)
  from homogeneous_matrices_calls [OF h] obtain rest where
    rest: "calls w' = calls (warm_up cameras w) @ rest"
      "rest \<noteq> [] \<longrightarrow> hd rest = GetIntrinsics (hd cameras)"
    by blast
  have "10 \<le> count_list (concat (map (\<lambda>c. replicate 10 (GetRgb c)) cameras)) (GetRgb c)"
    if "c \<in> set cameras" for c
  proof -
    from that have "0 < count_list cameras c"
      by (simp add: count_list_0_iff zero_less_iff_neq_zero)
    then show ?thesis
      by (simp add: count_list_warm_up)
  qed
  moreover have "\<forall>c. GetIntrinsics c \<notin> set (concat (map (\<lambda>c. replicate 10 (GetRgb c)) cameras))"
    by auto
  ultimately show ?thesis
    using rest h by (intro exI [of _ rest]) (simp add: warm_up_calls)
qed

text \<open>
  Three cameras: thirty frames are dropped before the sampling.
\<close>

theorem warm_up_before_sampling_witness:
  "\<exists>w' rest. extrinsic_calibration cvW [0, 1, 2] (1, 1) (PyInt 1) 1 False wW
          = Some (Inr [transl (- 1) 0 0, transl (- 2) 0 0], w')
     \<and> 2 \<le> length [0::nat, 1, 2]
     \<and> calls w' = calls wW @ concat (map (\<lambda>c. replicate 10 (GetRgb c)) [0, 1, 2]) @ rest"
proof -
  from run_three_cameras obtain w' where
    r: "extrinsic_calibration cvW [0, 1, 2] (1, 1) (PyInt 1) 1 False wW
          = Some (Inr [transl (- 1) 0 0, transl (- 2) 0 0], w')" ..
  have n: "2 \<le> length [0::nat, 1, 2]" by simp
  from warm_up_before_sampling [OF r n] obtain rest where
    "calls w' = calls wW @ concat (map (\<lambda>c. replicate 10 (GetRgb c)) [0, 1, 2]) @ rest"
    by blast
  with r n show ?thesis by blast
qed

text \<open>
  Claim C9 fails for the spacing as stated.  With squares of 25 mm the second corner of a
  row is stored at \<open>13421773 / 536870912\<close>, the \<^verbatim>\<open>float32\<close> nearest to the \<^verbatim>\<open>float64\<close> product,
  and not at 25 times 1/1000.
\<close>

theorem object_points_spacing_counterexample:
  "object_points (2, 1) (PyInt 25)
     = Inr [(Finite 0, Finite 0, Finite 0), (Finite (13421773 / 536870912), Finite 0, Finite 0)]
   \<and> (13421773 / 536870912 - 0 :: real) \<noteq> 25 * (1 / 1000)"
  by (simp add: object_points_2_1_25)

text \<open>
  Claim C9, amended.  For a board of \<open>cols\<close> by \<open>rows\<close> corners, at most \<open>2 ^ 20\<close> a side, and
  a square size \<open>s\<close> that is zero or between \<open>2 ^ - 40\<close> and \<open>2 ^ 40\<close> in magnitude, given as
  an \<^verbatim>\<open>int\<close> or as a \<^verbatim>\<open>float\<close>, the object points are \<open>cols * rows\<close> points with third
  coordinate exactly 0; the point at column \<open>i\<close> and row \<open>j\<close> is at position \<open>j * cols + i\<close>
  and its coordinates are \<open>i * s / 1000\<close> and \<open>j * s / 1000\<close> up to a relative rounding
  error of \<open>2 ^ - 23\<close>.
\<close>

theorem object_points_grid:
  assumes "0 \<le> cols" and "cols \<le> 2 ^ 20" and "0 \<le> rows" and "rows \<le> 2 ^ 20"
    and "sq = PyInt n \<and> s = real_of_int n \<or> sq = PyFloat (Finite s)"
    and "s = 0 \<or> 1 / 2 ^ 40 \<le> \<bar>s\<bar> \<and> \<bar>s\<bar> \<le> 2 ^ 40"
  shows "\<exists>objp. object_points (cols, rows) sq = Inr objp
           \<and> int (length objp) = cols * rows
           \<and> (\<forall>p\<in>set objp. snd (snd p) = Finite 0)
           \<and> (\<forall>i<nat cols. \<forall>j<nat rows. \<exists>x y.
                 objp ! (j * nat cols + i) = (Finite x, Finite y, Finite 0)
                 \<and> \<bar>x - real i * s / 1000\<bar> \<le> \<bar>real i * s / 1000\<bar> / 2 ^ 23
                 \<and> \<bar>y - real j * s / 1000\<bar> \<le> \<bar>real j * s / 1000\<bar> / 2 ^ 23)"
proof -
  let ?objp = "map (\<lambda>(i, j). (grid_coordinate i sq, grid_coordinate j sq, Finite 0))
                 (mgrid_pairs cols rows)"
  from assms(1,3) have len: "int (length (mgrid_pairs cols rows)) = cols * rows"
    by (simp add: length_mgrid_pairs nat_mult_distrib)
  from assms(1,3) have neg: "\<not> cols * rows < 0"
    by (simp add: not_less)
  have range: "\<not> (case sq of PyInt n \<Rightarrow> n < - (2 ^ 63) \<or> 2 ^ 63 \<le> n | PyFloat x \<Rightarrow> False)"
  proof (cases sq)
    case (PyInt m)
    with assms(5) have m: "s = real_of_int m" by simp
    from assms(6) have "\<bar>s\<bar> \<le> 2 ^ 40" by auto
    then have "\<bar>m\<bar> \<le> 2 ^ 40"
      unfolding m by (simp only: of_int_abs [symmetric] of_int_le_numeral_power_cancel_iff)
    then show ?thesis
      by (simp add: PyInt abs_le_iff)
  next
    case (PyFloat x)
    then show ?thesis by simp
  qed
  from assms(1,3) neg range have o: "object_points (cols, rows) sq = Inr ?objp"
    by (simp add: object_points_def)
  have "\<exists>x y. ?objp ! (j * nat cols + i) = (Finite x, Finite y, Finite 0)
          \<and> \<bar>x - real i * s / 1000\<bar> \<le> \<bar>real i * s / 1000\<bar> / 2 ^ 23
          \<and> \<bar>y - real j * s / 1000\<bar> \<le> \<bar>real j * s / 1000\<bar> / 2 ^ 23"
    if "i < nat cols" "j < nat rows" for i j
  proof -
    from that have "j * nat cols + i < nat rows * nat cols"
      by (intro grid_index_less)
    then have l: "j * nat cols + i < length (mgrid_pairs cols rows)"
      by (simp add: length_mgrid_pairs mult.commute)
    have g: "mgrid_pairs cols rows ! (j * nat cols + i) = (int i, int j)"
      unfolding mgrid_pairs_def using that by (simp add: concat_grid_nth)
    from that assms(2,4) have "int i \<le> 2 ^ 20" "int j \<le> 2 ^ 20"
      by linarith+
    with grid_coordinate_close [OF assms(5,6), of "int i"]
      grid_coordinate_close [OF assms(5,6), of "int j"]
    obtain x y where
      "grid_coordinate (int i) sq = Finite x"
      "\<bar>x - real i * s / 1000\<bar> \<le> \<bar>real i * s / 1000\<bar> / 2 ^ 23"
      "grid_coordinate (int j) sq = Finite y"
      "\<bar>y - real j * s / 1000\<bar> \<le> \<bar>real j * s / 1000\<bar> / 2 ^ 23"
      by auto
    with l g show ?thesis
      by (intro exI [of _ x] exI [of _ y]) simp
  qed
  moreover have "\<forall>p\<in>set ?objp. snd (snd p) = Finite 0"
    by auto
  ultimately show ?thesis
    using o len by (intro exI [of _ ?objp]) simp
qed

text \<open>
  Two corners in one row, squares of 25 mm given as an \<^verbatim>\<open>int\<close>.
\<close>

theorem object_points_grid_witness:
  "(0::int) \<le> 2 \<and> (2::int) \<le> 2 ^ 20 \<and> (0::int) \<le> 1 \<and> (1::int) \<le> 2 ^ 20
   \<and> object_points (2, 1) (PyInt 25)
       = Inr [(Finite 0, Finite 0, Finite 0), (Finite (13421773 / 536870912), Finite 0, Finite 0)]
   \<and> int (length [(Finite 0, Finite 0, Finite 0),
                   (Finite (13421773 / 536870912), Finite 0, Finite 0)]) = 2 * 1"
proof -
  have "PyInt 25 = PyInt 25 \<and> (25::real) = real_of_int 25 \<or> PyInt 25 = PyFloat (Finite 25)"
    by simp
  from object_points_grid [of 2 1 "PyInt 25" 25 25, OF _ _ _ _ this]
  obtain objp where "object_points (2, 1) (PyInt 25) = Inr objp" "int (length objp) = 2 * 1"
    by auto
  then show ?thesis
    by (simp add: object_points_2_1_25)
qed

text \<open>
  Claim C10.  Every matrix of the returned list has the last row \<open>0 0 0 1\<close>: an assembled
  transform has it (\<open>row4_hom_mat\<close>), inversion keeps it (\<open>affine_inv4\<close>) and so does the
  product (\<open>affine_matmul4\<close>).
\<close>

theorem returned_last_row:
  assumes "extrinsic_calibration cv cameras cs sq loops disp w = Some (Inr out, w')"
    and "M \<in> set out"
  shows "row4 M 3 = Vec4 0 0 0 1"
proof -
  from assms(1) obtain Hs full where
    h: "homogeneous_matrices cv cameras cs sq loops disp (warm_up cameras w) = Some (Inr Hs, w')"
    and r: "relative_transforms (hd Hs) Hs = Inr full" and o: "out = drop 1 full" and ne: "Hs \<noteq> []"
    by (auto simp: extrinsic_calibration_def split: if_splits option.splits sum.splits list.splits)
  from assms(2) have "M \<in> set full"
    unfolding o by (rule in_set_dropD)
  then obtain k where k: "k < length full" "M = full ! k"
    by (auto simp: in_set_conv_nth)
  with r obtain H_inv where
    i: "inv4 (Hs ! k) = Inr H_inv" and m: "M = matmul4 (hd Hs) H_inv" and kl: "k < length Hs"
    by (auto simp: relative_transforms_iff)
  have "row4 (Hs ! k) 3 = Vec4 0 0 0 1"
    using kl by (intro homogeneous_matrices_affine [OF h]) simp
  then have "row4 H_inv 3 = Vec4 0 0 0 1"
    using i by (rule affine_inv4)
  moreover have "row4 (hd Hs) 3 = Vec4 0 0 0 1"
    using ne by (intro homogeneous_matrices_affine [OF h]) simp
  ultimately show ?thesis
    unfolding m by (simp add: affine_matmul4)
qed

text \<open>
  The transform of the third of three cameras.
\<close>

theorem returned_last_row_witness:
  "\<exists>w'. extrinsic_calibration cvW [0, 1, 2] (1, 1) (PyInt 1) 1 False wW
           = Some (Inr [transl (- 1) 0 0, transl (- 2) 0 0], w')
        \<and> transl (- 2) 0 0 \<in> set [transl (- 1) 0 0, transl (- 2) 0 0]
        \<and> row4 (transl (- 2) 0 0) 3 = Vec4 0 0 0 1"
proof -
  from run_three_cameras obtain w' where
    r: "extrinsic_calibration cvW [0, 1, 2] (1, 1) (PyInt 1) 1 False wW
          = Some (Inr [transl (- 1) 0 0, transl (- 2) 0 0], w')" ..
  have m: "transl (- 2) 0 0 \<in> set [transl (- 1) 0 0, transl (- 2) 0 0]" by simp
  from returned_last_row [OF r m] r m show ?thesis by blast
qed

end
